theory Spec2Isabelle
  imports Main
begin

section \<open>irwm: a shallow embedding of irwm.c\<close>

text \<open>
  The definitions below follow irwm.c function by function. Conventions:
  \<^item> a C \<open>int\<close> is an \<open>int\<close>; every value that occurs stays far from the 32-bit limits,
    but the remainder \<open>%\<close> of C truncates towards zero and is written out (\<open>c_rem\<close>);
  \<^item> an X window identifier (\<open>Window\<close>) is a \<open>nat\<close>, and \<open>None\<close> is 0;
  \<^item> a global array is a function from the index to the slot, with the count beside it,
    as the C code has it (\<open>panel[]\<close> with \<open>numpanels\<close>, \<open>override[]\<close> with \<open>numoverride\<close>);
  \<^item> a C string is a \<open>string\<close>, a pointer that may be \<open>NULL\<close> is an \<open>option\<close>;
  \<^item> behaviour that C leaves undefined (division by zero, an index outside an array, a
    \<open>NULL\<close> string handed to \<open>strcmp\<close>) is a value of type \<open>crash\<close>;
  \<^item> a loop with no bound is a \<open>partial_function\<close> into \<open>option\<close>: \<open>None\<close> is a run that
    never ends;
  \<^item> requests to the X server and lines of the log are output only, the code never reads
    them back; they are modelled where a property is about them (the move request of
    \<open>overrideplace\<close>, the capacity warnings, the programs forked from the program list).
\<close>

type_synonym window = nat

datatype crash = DivisionByZero | OutOfBounds | NullString

definition c_rem :: "int \<Rightarrow> int \<Rightarrow> int" where
  "c_rem a b = sgn a * (\<bar>a\<bar> mod \<bar>b\<bar>)"

subsection \<open>Commands, their identifiers and names\<close>

definition NOCOMMAND :: int where "NOCOMMAND = 0"
definition NEXTPANEL :: int where "NEXTPANEL = 1"
definition PREVPANEL :: int where "PREVPANEL = 2"
definition RESTART :: int where "RESTART = 3"
definition QUIT :: int where "QUIT = 4"
definition LOGLIST :: int where "LOGLIST = 5"
definition POSITIONFIX :: int where "POSITIONFIX = 6"
definition RESIZE :: int where "RESIZE = 7"
definition PANELWINDOW :: int where "PANELWINDOW = 10"
definition PROGSWINDOW :: int where "PROGSWINDOW = 11"
definition CONFIRMWINDOW :: int where "CONFIRMWINDOW = 12"
definition UPWINDOW :: int where "UPWINDOW = 20"
definition DOWNWINDOW :: int where "DOWNWINDOW = 21"
definition HIDEWINDOW :: int where "HIDEWINDOW = 22"
definition OKWINDOW :: int where "OKWINDOW = 23"
definition KOWINDOW :: int where "KOWINDOW = 24"
definition ENDWINDOW :: int where "ENDWINDOW = 25"

definition NUMWINDOW :: "int \<Rightarrow> int" where
  "NUMWINDOW n = 100 + n"

lemmas command_defs =
  NOCOMMAND_def NEXTPANEL_def PREVPANEL_def RESTART_def QUIT_def LOGLIST_def
  POSITIONFIX_def RESIZE_def PANELWINDOW_def PROGSWINDOW_def CONFIRMWINDOW_def
  UPWINDOW_def DOWNWINDOW_def HIDEWINDOW_def OKWINDOW_def KOWINDOW_def ENDWINDOW_def
  NUMWINDOW_def

text \<open>
  One row of the table \<open>commandstring[]\<close>. The key symbol and the modifier of a row are
  read by \<open>eventtocommand\<close> only and are left out.
\<close>

record commandentry =
  command :: int
  string :: "string option"

definition commandstring :: "commandentry list" where
  "commandstring =
    [\<lparr>command = NOCOMMAND, string = Some ''NOCOMMAND''\<rparr>,
     \<lparr>command = NEXTPANEL, string = Some ''NEXTPANEL''\<rparr>,
     \<lparr>command = PREVPANEL, string = Some ''PREVPANEL''\<rparr>,
     \<lparr>command = RESTART, string = Some ''RESTART''\<rparr>,
     \<lparr>command = QUIT, string = Some ''QUIT''\<rparr>,
     \<lparr>command = LOGLIST, string = Some ''LOGLIST''\<rparr>,
     \<lparr>command = PANELWINDOW, string = Some ''PANELWINDOW''\<rparr>,
     \<lparr>command = PROGSWINDOW, string = Some ''PROGSWINDOW''\<rparr>,
     \<lparr>command = - 1, string = Some ''ENDGRAB''\<rparr>,
     \<lparr>command = RESIZE, string = Some ''RESIZE''\<rparr>,
     \<lparr>command = POSITIONFIX, string = Some ''POSITIONFIX''\<rparr>,
     \<lparr>command = CONFIRMWINDOW, string = Some ''CONFIRMWINDOW''\<rparr>,
     \<lparr>command = UPWINDOW, string = Some ''UPWINDOW''\<rparr>,
     \<lparr>command = DOWNWINDOW, string = Some ''DOWNWINDOW''\<rparr>,
     \<lparr>command = HIDEWINDOW, string = Some ''HIDEWINDOW''\<rparr>,
     \<lparr>command = OKWINDOW, string = Some ''OKWINDOW''\<rparr>,
     \<lparr>command = KOWINDOW, string = Some ''KOWINDOW''\<rparr>,
     \<lparr>command = ENDWINDOW, string = Some ''ENDWINDOW''\<rparr>,
     \<lparr>command = NUMWINDOW 1, string = Some ''NUMWINDOW(1)''\<rparr>,
     \<lparr>command = NUMWINDOW 2, string = Some ''NUMWINDOW(2)''\<rparr>,
     \<lparr>command = NUMWINDOW 3, string = Some ''NUMWINDOW(3)''\<rparr>,
     \<lparr>command = NUMWINDOW 4, string = Some ''NUMWINDOW(4)''\<rparr>,
     \<lparr>command = NUMWINDOW 5, string = Some ''NUMWINDOW(5)''\<rparr>,
     \<lparr>command = NUMWINDOW 6, string = Some ''NUMWINDOW(6)''\<rparr>,
     \<lparr>command = NUMWINDOW 7, string = Some ''NUMWINDOW(7)''\<rparr>,
     \<lparr>command = NUMWINDOW 8, string = Some ''NUMWINDOW(8)''\<rparr>,
     \<lparr>command = NUMWINDOW 9, string = Some ''NUMWINDOW(9)''\<rparr>,
     \<lparr>command = - 1, string = None\<rparr>,
     \<lparr>command = - 1, string = None\<rparr>]"

text \<open>The output of \<open>sprintf\<close> for \<open>%d\<close>.\<close>

definition digitchar :: "nat \<Rightarrow> char" where
  "digitchar n = ''0123456789'' ! n"

function decimal :: "nat \<Rightarrow> string" where
  "decimal n = (if n < 10 then [digitchar n] else decimal (n div 10) @ [digitchar (n mod 10)])"
  by pat_completeness auto
termination
  by (relation "measure (\<lambda>n. n)") auto

declare decimal.simps [simp del]

definition printf_d :: "int \<Rightarrow> string" where
  "printf_d i = (if i < 0 then CHR ''-'' # decimal (nat (- i)) else decimal (nat i))"

text \<open>
  The first loop of \<open>commandtostring\<close>: the rows up to the first one with a \<open>NULL\<close> string.
\<close>

fun commandtostring_rows :: "commandentry list \<Rightarrow> int \<Rightarrow> string option" where
  "commandtostring_rows [] c = None"
| "commandtostring_rows (e # es) c =
     (case string e of
        None \<Rightarrow> None
      | Some s \<Rightarrow> if command e = c then Some s else commandtostring_rows es c)"

definition commandtostring :: "int \<Rightarrow> string" where
  "commandtostring c =
     (case commandtostring_rows commandstring c of
        Some s \<Rightarrow> s
      | None \<Rightarrow>
          if c \<ge> NUMWINDOW 0 then ''NUMWINDOW('' @ printf_d c @ '')''
          else ''ERROR: no such command'')"

text \<open>
  \<open>sscanf(string, "NUMWINDOW(%d%c", &i, &par)\<close>: the literal prefix, then for \<open>%d\<close>
  white space, a sign and at least one digit, then for \<open>%c\<close> one more character. The
  result is \<open>Some (i, par)\<close> exactly when \<open>sscanf\<close> returns 2.
\<close>

fun strip_literal :: "string \<Rightarrow> string \<Rightarrow> string option" where
  "strip_literal [] s = Some s"
| "strip_literal (p # ps) [] = None"
| "strip_literal (p # ps) (c # cs) = (if p = c then strip_literal ps cs else None)"

definition isspace :: "char \<Rightarrow> bool" where
  "isspace c = (c \<in> set [CHR '' '', CHR 0x09, CHR 0x0A, CHR 0x0B, CHR 0x0C, CHR 0x0D])"

definition digitval :: "char \<Rightarrow> nat option" where
  "digitval c = map_of (zip ''0123456789'' [0, 1, 2, 3, 4, 5, 6, 7, 8, 9]) c"

fun scan_digits :: "nat \<Rightarrow> string \<Rightarrow> nat \<times> string" where
  "scan_digits acc [] = (acc, [])"
| "scan_digits acc (c # cs) =
     (case digitval c of
        None \<Rightarrow> (acc, c # cs)
      | Some d \<Rightarrow> scan_digits (10 * acc + d) cs)"

definition scan_unsigned :: "string \<Rightarrow> (nat \<times> string) option" where
  "scan_unsigned s =
     (case s of
        [] \<Rightarrow> None
      | c # cs \<Rightarrow> (case digitval c of None \<Rightarrow> None | Some d \<Rightarrow> Some (scan_digits d cs)))"

definition scan_d :: "string \<Rightarrow> (int \<times> string) option" where
  "scan_d s =
     (case dropWhile isspace s of
        [] \<Rightarrow> None
      | c # cs \<Rightarrow>
          if c = CHR ''-'' then map_option (\<lambda>(n, r). (- int n, r)) (scan_unsigned cs)
          else if c = CHR ''+'' then map_option (\<lambda>(n, r). (int n, r)) (scan_unsigned cs)
          else map_option (\<lambda>(n, r). (int n, r)) (scan_unsigned (c # cs)))"

definition sscanf_NUMWINDOW :: "string \<Rightarrow> (int \<times> char) option" where
  "sscanf_NUMWINDOW s =
     (case strip_literal ''NUMWINDOW('' s of
        None \<Rightarrow> None
      | Some r \<Rightarrow>
          (case scan_d r of
             None \<Rightarrow> None
           | Some (i, r') \<Rightarrow> (case r' of [] \<Rightarrow> None | par # _ \<Rightarrow> Some (i, par))))"

fun stringtocommand_rows :: "commandentry list \<Rightarrow> string \<Rightarrow> int option" where
  "stringtocommand_rows [] s = None"
| "stringtocommand_rows (e # es) s =
     (case string e of
        None \<Rightarrow> None
      | Some t \<Rightarrow> if t = s then Some (command e) else stringtocommand_rows es s)"

definition stringtocommand :: "string \<Rightarrow> int" where
  "stringtocommand s =
     (case stringtocommand_rows commandstring s of
        Some c \<Rightarrow> c
      | None \<Rightarrow>
          (case sscanf_NUMWINDOW s of
             Some (i, par) \<Rightarrow> if i \<ge> 0 \<and> par = CHR '')'' then NUMWINDOW i else - 1
           | None \<Rightarrow> - 1))"

subsection \<open>The error events of the main loop\<close>

text \<open>
  The error codes and request codes come from the headers of Xlib (\<open>X.h\<close>, \<open>Xproto.h\<close>);
  their values are those of the X protocol.
\<close>

definition BadWindow :: nat where "BadWindow = 3"
definition BadAtom :: nat where "BadAtom = 5"
definition X_GetWindowAttributes :: nat where "X_GetWindowAttributes = 3"
definition X_MapWindow :: nat where "X_MapWindow = 8"
definition X_ConfigureWindow :: nat where "X_ConfigureWindow = 12"
definition X_GetAtomName :: nat where "X_GetAtomName = 17"
definition X_ChangeProperty :: nat where "X_ChangeProperty = 18"
definition X_SetInputFocus :: nat where "X_SetInputFocus = 42"

record XErrorEvent =
  resourceid :: nat
  error_code :: nat
  request_code :: nat

text \<open>
  What \<open>case Error:\<close> of the main loop does with an error that \<open>handler\<close> has put back
  into the event queue: it prints a note and goes on, or it calls the handler that Xlib
  had installed before, which prints the error and exits.
\<close>

datatype error_outcome = IgnoredBadWindow | IgnoredBadAtom | DefaultHandler

definition main_Error :: "XErrorEvent \<Rightarrow> error_outcome" where
  "main_Error err =
     (if error_code err = BadWindow \<and>
         (request_code err = X_MapWindow \<or>
          request_code err = X_ChangeProperty \<or>
          request_code err = X_SetInputFocus \<or>
          request_code err = X_ConfigureWindow \<or>
          request_code err = X_GetWindowAttributes)
      then IgnoredBadWindow
      else if error_code err = BadAtom \<and> request_code err = X_GetAtomName
      then IgnoredBadAtom
      else DefaultHandler)"

definition swallowed :: "error_outcome \<Rightarrow> bool" where
  "swallowed r = (r = IgnoredBadWindow \<or> r = IgnoredBadAtom)"

subsection \<open>Windows with the override_redirect flag\<close>

definition MAXOVERRIDE :: nat where "MAXOVERRIDE = 1000"
definition UNMOVED :: int where "UNMOVED = - 10000"

text \<open>A slot of the array \<open>override[]\<close>.\<close>

record override_slot =
  win :: window
  nx :: int
  ny :: int
  ontop :: bool

text \<open>
  The array \<open>override[MAXOVERRIDE]\<close> and its count. \<open>numoverride\<close> starts at 0, grows in
  \<open>overrideadd\<close> and shrinks in \<open>overrideremove\<close> only after a slot below it was found, so
  it is never negative.
\<close>

record overrides =
  override :: "nat \<Rightarrow> override_slot"
  numoverride :: nat

text \<open>What a function prints to the log and what it asks of the X server.\<close>

datatype effect =
    Printf string
  | Overrideprint string nat
  | Panelprint string nat
  | XMoveWindow window int int

definition overrideadd :: "overrides \<Rightarrow> window \<Rightarrow> effect list \<times> overrides" where
  "overrideadd ov w =
     (if numoverride ov \<ge> MAXOVERRIDE
      then ([Printf ''WARNING: too many override_redirect windows''], ov)
      else ([Overrideprint ''ADD'' (numoverride ov)],
            ov\<lparr>override := (override ov)
                   (numoverride ov := \<lparr>win = w, nx = UNMOVED, ny = UNMOVED, ontop = False\<rparr>),
               numoverride := numoverride ov + 1\<rparr>))"

text \<open>
  \<open>randombetween\<close> calls \<open>rand()\<close> up to three times. The random source is the sequence
  \<open>rnd\<close> of the values \<open>rand()\<close> returns, and \<open>k\<close> counts the calls made so far.
\<close>

definition randombetween :: "int \<Rightarrow> int \<Rightarrow> int \<Rightarrow> (nat \<Rightarrow> int) \<Rightarrow> nat \<Rightarrow> int \<times> nat" where
  "randombetween d c rc rnd k =
     (if c \<ge> rc \<and> c \<le> rc + d then (c, k)
      else if c_rem (rnd k) 3 = 0 then (rc, k + 1)
      else if c_rem (rnd (k + 1)) 3 = 0 then (rc + d, k + 2)
      else (rc + (c_rem (rnd (k + 2)) (d + (if d < 0 then - 1 else 1)) + (if d < 0 then d else 0)),
            k + 3))"

record XWindowAttributes =
  wa_x :: int
  wa_y :: int
  wa_width :: int
  wa_height :: int
  wa_border_width :: int

text \<open>
  \<open>overrideplace\<close>, from slot \<open>i\<close> on. \<open>wa\<close> is what \<open>XGetWindowAttributes\<close> answers for
  the window, \<open>rwa\<close> the geometry of the root window. The result is the requests sent,
  the table and the count of calls of \<open>rand()\<close>.
\<close>

function overrideplace_from ::
  "nat \<Rightarrow> overrides \<Rightarrow> window \<Rightarrow> XWindowAttributes \<Rightarrow> XWindowAttributes \<Rightarrow> (nat \<Rightarrow> int) \<Rightarrow> nat \<Rightarrow>
   effect list \<times> overrides \<times> nat" where
  "overrideplace_from i ov w rwa wa rnd k =
     (if i < numoverride ov then
        (if win (override ov i) = w then
           (if nx (override ov i) = wa_x wa \<and> ny (override ov i) = wa_y wa then ([], ov, k)
            else
              let d = wa_width rwa - wa_width wa - 2 * wa_border_width wa;
                  (nx', k1) = randombetween d (wa_x wa) (wa_x rwa) rnd k;
                  d' = wa_height rwa - wa_height wa - 2 * wa_border_width wa;
                  (ny', k2) = randombetween d' (wa_y wa) (wa_y rwa) rnd k1;
                  ov' = ov\<lparr>override := (override ov)(i := (override ov i)\<lparr>nx := nx', ny := ny'\<rparr>)\<rparr>
              in if nx' = wa_x wa \<and> ny' = wa_y wa then ([], ov', k2)
                 else ([XMoveWindow w nx' ny', Overrideprint ''MOVE'' i], ov', k2))
         else overrideplace_from (i + 1) ov w rwa wa rnd k)
      else ([], ov, k))"
  by pat_completeness auto
termination
  by (relation "measure (\<lambda>(i, ov, w, rwa, wa, rnd, k). numoverride ov - i)") auto

declare overrideplace_from.simps [simp del]

definition overrideplace ::
  "overrides \<Rightarrow> window \<Rightarrow> XWindowAttributes \<Rightarrow> XWindowAttributes \<Rightarrow> (nat \<Rightarrow> int) \<Rightarrow> nat \<Rightarrow>
   effect list \<times> overrides \<times> nat" where
  "overrideplace ov w rwa wa rnd k = overrideplace_from 0 ov w rwa wa rnd k"

text \<open>
  \<open>case ConfigureNotify:\<close> of the main loop calls \<open>overrideplace\<close> when the toggle
  \<open>overridefix\<close> is set.
\<close>

definition main_ConfigureNotify ::
  "bool \<Rightarrow> overrides \<Rightarrow> window \<Rightarrow> XWindowAttributes \<Rightarrow> XWindowAttributes \<Rightarrow> (nat \<Rightarrow> int) \<Rightarrow> nat \<Rightarrow>
   effect list \<times> overrides \<times> nat" where
  "main_ConfigureNotify overridefix ov w rwa wa rnd k =
     (if overridefix then overrideplace ov w rwa wa rnd k else ([], ov, k))"

text \<open>
  The geometry the X server reports for the window after the requests: a move request
  puts the window at the position it names, and nothing else changes.
\<close>

fun geometry_after :: "effect list \<Rightarrow> window \<Rightarrow> XWindowAttributes \<Rightarrow> XWindowAttributes" where
  "geometry_after [] w wa = wa"
| "geometry_after (XMoveWindow v px py # rs) w wa =
     geometry_after rs w (if v = w then wa\<lparr>wa_x := px, wa_y := py\<rparr> else wa)"
| "geometry_after (r # rs) w wa = geometry_after rs w wa"

subsection \<open>The panels and their contents\<close>

definition MAXPANELS :: nat where "MAXPANELS = 1000"

text \<open>
  \<open>struct panel\<close>: the container window (the field \<open>panel\<close> of the C code, here
  \<open>panelwin\<close>), the window it contains, its name, the group leader and the flag of a
  content that its program has withdrawn.
\<close>

record struct_panel =
  panelwin :: window
  content :: window
  name :: string
  leader :: window
  withdrawn :: bool

text \<open>
  The global variables of the panels. \<open>numpanels\<close> starts at 0, grows in \<open>paneladd\<close> and
  shrinks in \<open>panelremove\<close> at most once for each slot below it, so it is never
  negative; \<open>numactive\<close> and \<open>activepanel\<close> are integers, \<open>activepanel\<close> is \<open>-1\<close> for no
  panel.
\<close>

record registry =
  panel :: "nat \<Rightarrow> struct_panel"
  numpanels :: nat
  numactive :: int
  activepanel :: int
  activecontent :: window
  unmaponleave :: bool
  activewindow :: window

text \<open>
  \<open>panelfind\<close>: the bits \<open>PANEL\<close> (1) and \<open>CONTENT\<close> (2) of \<open>panelorcontent\<close> say which
  field is compared.
\<close>

definition PANEL :: nat where "PANEL = 1"
definition CONTENT :: nat where "CONTENT = 2"

function panelfind_from :: "nat \<Rightarrow> registry \<Rightarrow> window \<Rightarrow> nat \<Rightarrow> int" where
  "panelfind_from i reg p panelorcontent =
     (if i < numpanels reg then
        (if odd panelorcontent \<and> p = panelwin (panel reg i) then int i
         else if odd (panelorcontent div 2) \<and> p = content (panel reg i) then int i
         else panelfind_from (i + 1) reg p panelorcontent)
      else - 1)"
  by pat_completeness auto
termination
  by (relation "measure (\<lambda>(i, reg, p, panelorcontent). numpanels reg - i)") auto

declare panelfind_from.simps [simp del]

definition panelfind :: "registry \<Rightarrow> window \<Rightarrow> nat \<Rightarrow> int" where
  "panelfind reg p panelorcontent = panelfind_from 0 reg p panelorcontent"

text \<open>
  \<open>panelname\<close>: \<open>wmname\<close> is the answer of \<open>XGetWMName\<close> for the content, \<open>None\<close> when the
  window has no name.
\<close>

definition panelname :: "string option \<Rightarrow> string" where
  "panelname wmname = (case wmname of None \<Rightarrow> ''NoName'' | Some t \<Rightarrow> t)"

text \<open>
  \<open>paneladd\<close>: \<open>p\<close> is the window that \<open>XCreateSimpleWindow\<close> creates for the panel. The
  result is the value returned, the lines printed and the registry.
\<close>

definition paneladd ::
  "registry \<Rightarrow> window \<Rightarrow> window \<Rightarrow> string option \<Rightarrow> window \<Rightarrow> int \<times> effect list \<times> registry" where
  "paneladd reg p w wmname ld =
     (if numpanels reg \<ge> MAXPANELS
      then (- 1, [Printf ''IRWM ERROR: too many open panels, not creating a new one''], reg)
      else
        let e = panelfind reg w (PANEL + CONTENT) in
        if e \<noteq> - 1 then (e, [Printf ''IRWM NOTE: window already exists''], reg)
        else
          (int (numpanels reg),
           [Panelprint ''CREATE'' (numpanels reg)],
           reg\<lparr>panel := (panel reg)
                  (numpanels reg :=
                     \<lparr>panelwin = p, content = w, name = panelname wmname, leader = ld,
                      withdrawn = False\<rparr>),
               numactive := numactive reg + 1,
               numpanels := numpanels reg + 1\<rparr>))"

text \<open>
  The loop \<open>do MODULEINCREASE(activepanel, numpanels, rel); while
  (panel[activepanel].withdrawn);\<close> of \<open>panelswitch\<close> and of \<open>panelremove\<close>. The macro is
  \<open>n = ((n) + (mod) + (rel)) % (mod)\<close>.
\<close>

definition MODULEINCREASE :: "int \<Rightarrow> int \<Rightarrow> int \<Rightarrow> crash + int" where
  "MODULEINCREASE n m rel =
     (if m = 0 then Inl DivisionByZero else Inr (c_rem (n + m + rel) m))"

partial_function (option) skip_withdrawn :: "registry \<Rightarrow> int \<Rightarrow> (crash + registry) option" where
  "skip_withdrawn reg rel =
     (case MODULEINCREASE (activepanel reg) (int (numpanels reg)) rel of
        Inl e \<Rightarrow> Some (Inl e)
      | Inr a \<Rightarrow>
          if a < 0 then Some (Inl OutOfBounds)
          else if withdrawn (panel reg (nat a)) then skip_withdrawn (reg\<lparr>activepanel := a\<rparr>) rel
          else Some (Inr (reg\<lparr>activepanel := a\<rparr>)))"

declare skip_withdrawn.simps [code]

text \<open>
  The end of a round of the loop of \<open>panelremove\<close> for a panel that stays:
  \<open>if (j != i) panel[j] = panel[i];\<close>.
\<close>

definition keep_slot :: "nat \<Rightarrow> nat \<Rightarrow> registry \<Rightarrow> registry" where
  "keep_slot i j r = (if j \<noteq> i then r\<lparr>panel := (panel r)(j := panel r i)\<rparr> else r)"

text \<open>
  One round of the loop \<open>for (i = 0; i < n; i++)\<close> of \<open>panelremove\<close>, for the index \<open>i\<close>
  and the write position \<open>j\<close>; the result is the next \<open>j\<close> and the registry.
\<close>

definition panelremove_round ::
  "int \<Rightarrow> window \<Rightarrow> bool \<Rightarrow> nat \<Rightarrow> nat \<Rightarrow> registry \<Rightarrow> (crash + nat \<times> registry) option" where
  "panelremove_round pn c destroy i j reg =
     (if int i = pn \<or> leader (panel reg i) = c then
        let reg1 = (if \<not> withdrawn (panel reg i) then reg\<lparr>numactive := numactive reg - 1\<rparr> else reg);
            reg2 = (if destroy then reg1\<lparr>numpanels := numpanels reg1 - 1\<rparr>
                    else if \<not> withdrawn (panel reg1 i)
                    then reg1\<lparr>panel := (panel reg1)(i := (panel reg1 i)\<lparr>withdrawn := True\<rparr>)\<rparr>
                    else reg1)
        in
        (case (if activepanel reg2 = int j \<and> numactive reg2 > 0
               then skip_withdrawn reg2 (- 1) else Some (Inr reg2)) of
           None \<Rightarrow> None
         | Some (Inl e) \<Rightarrow> Some (Inl e)
         | Some (Inr reg3) \<Rightarrow>
             if destroy
             then Some (Inr (j, if activepanel reg3 > int j
                                then reg3\<lparr>activepanel := activepanel reg3 - 1\<rparr> else reg3))
             else Some (Inr (j + 1, keep_slot i j reg3)))
      else Some (Inr (j + 1, keep_slot i j reg)))"

function panelremove_loop ::
  "int \<Rightarrow> window \<Rightarrow> bool \<Rightarrow> nat \<Rightarrow> nat \<Rightarrow> nat \<Rightarrow> registry \<Rightarrow> (crash + nat \<times> registry) option" where
  "panelremove_loop pn c destroy n i j reg =
     (if i < n then
        (case panelremove_round pn c destroy i j reg of
           None \<Rightarrow> None
         | Some (Inl e) \<Rightarrow> Some (Inl e)
         | Some (Inr (j', reg')) \<Rightarrow> panelremove_loop pn c destroy n (i + 1) j' reg')
      else Some (Inr (j, reg)))"
  by pat_completeness auto
termination
  by (relation "measure (\<lambda>(pn, c, destroy, n, i, j, reg). n - i)") auto

declare panelremove_loop.simps [simp del]

definition panelremove :: "registry \<Rightarrow> int \<Rightarrow> bool \<Rightarrow> (crash + int \<times> registry) option" where
  "panelremove reg pn destroy =
     (if pn < 0 \<or> pn \<ge> int (numpanels reg) then Some (Inr (- 1, reg))
      else
        let c = content (panel reg (nat pn));
            reg0 = (if c = activecontent reg then reg\<lparr>activecontent := 0\<rparr> else reg)
        in
        (case panelremove_loop pn c destroy (numpanels reg0) 0 0 reg0 of
           None \<Rightarrow> None
         | Some (Inl e) \<Rightarrow> Some (Inl e)
         | Some (Inr (j, reg1)) \<Rightarrow>
             Some (Inr (0, if numactive reg1 = 0 then reg1\<lparr>activepanel := - 1\<rparr> else reg1))))"

definition panelswap :: "registry \<Rightarrow> int \<Rightarrow> int \<Rightarrow> crash + int \<times> registry" where
  "panelswap reg pn1 pn2 =
     (if pn1 = - 1 \<or> pn1 > int (numpanels reg) - 2 then Inr (- 1, reg)
      else if pn2 = - 1 \<or> pn2 > int (numpanels reg) - 1 then Inr (- 1, reg)
      else if pn1 < 0 \<or> pn2 < 0 then Inl OutOfBounds
      else Inr (0, reg\<lparr>panel := (panel reg)(nat pn2 := panel reg (nat pn1),
                                              nat pn1 := panel reg (nat pn2))\<rparr>))"

text \<open>
  \<open>panelleave\<close> sends requests to the X server (it unmaps the panel and its content when
  \<open>unmaponleave\<close> is set) and changes no variable.
\<close>

definition panelleave :: "registry \<Rightarrow> registry" where
  "panelleave reg = reg"

text \<open>
  \<open>panelenter\<close>: apart from the requests it sends, it restores a withdrawn panel and
  records the active content and the active window.
\<close>

definition panelenter :: "registry \<Rightarrow> crash + registry" where
  "panelenter reg =
     (if activepanel reg = - 1 then Inr (reg\<lparr>activecontent := 0\<rparr>)
      else if activepanel reg < 0 then Inl OutOfBounds
      else if activepanel reg \<ge> int (numpanels reg) then Inr reg
      else
        let a = nat (activepanel reg);
            reg1 = (if withdrawn (panel reg a)
                    then reg\<lparr>panel := (panel reg)(a := (panel reg a)\<lparr>withdrawn := False\<rparr>),
                             numactive := numactive reg + 1\<rparr>
                    else reg)
        in
        if activecontent reg1 = content (panel reg1 a) then Inr reg1
        else Inr (reg1\<lparr>activecontent := content (panel reg1 a),
                       activewindow := content (panel reg1 a)\<rparr>))"

definition panelswitch :: "registry \<Rightarrow> int \<Rightarrow> (crash + int \<times> registry) option" where
  "panelswitch reg rel =
     (if activepanel reg = - 1 then Some (Inr (- 1, reg))
      else
        (case skip_withdrawn (panelleave reg) rel of
           None \<Rightarrow> None
         | Some (Inl e) \<Rightarrow> Some (Inl e)
         | Some (Inr reg1) \<Rightarrow>
             (case panelenter reg1 of
                Inl e \<Rightarrow> Some (Inl e)
              | Inr reg2 \<Rightarrow> Some (Inr (0, reg2)))))"

subsection \<open>The commands of the main loop\<close>

definition MAXPROGRAMS :: nat where "MAXPROGRAMS = 100"

record program_slot =
  title :: "string option"
  program :: "string option"

text \<open>
  The variables of \<open>main\<close> that the commands read and write, with the registry and the
  program list. \<open>forked\<close> collects the programs handed to \<open>forkprogram\<close> and \<open>closed\<close>
  the windows handed to \<open>closewindow\<close>, the latest first.
\<close>

record mainvars =
  reg :: registry
  programs :: "nat \<Rightarrow> program_slot"
  numprograms :: nat
  singlekey :: bool
  overridefix :: bool
  confirmquit :: bool
  run :: bool
  restart :: bool
  showpanel :: bool
  showprogs :: bool
  showconfirm :: bool
  progselected :: int
  confirmselected :: int
  forked :: "string list"
  closed :: "window list"

text \<open>The four tests that turn a command for a list already shown into another.\<close>

definition toggle_command :: "mainvars \<Rightarrow> int \<Rightarrow> int" where
  "toggle_command v cmd =
     (let c1 = (if cmd = PANELWINDOW \<and> showpanel v
                then (if singlekey v then PROGSWINDOW else HIDEWINDOW) else cmd);
          c2 = (if c1 = PANELWINDOW \<and> showprogs v \<and> singlekey v then HIDEWINDOW else c1);
          c3 = (if c2 = PROGSWINDOW \<and> showprogs v then HIDEWINDOW else c2);
          c4 = (if c3 = CONFIRMWINDOW \<and> showconfirm v then HIDEWINDOW else c3)
      in c4)"

text \<open>A call of \<open>panelswitch\<close> whose return value is dropped.\<close>

definition switch_panel :: "mainvars \<Rightarrow> int \<Rightarrow> (crash + mainvars) option" where
  "switch_panel v rel =
     (case panelswitch (reg v) rel of
        None \<Rightarrow> None
      | Some (Inl e) \<Rightarrow> Some (Inl e)
      | Some (Inr (ret, reg')) \<Rightarrow> Some (Inr (v\<lparr>reg := reg'\<rparr>)))"

text \<open>The loop of \<open>case ENDWINDOW:\<close> that swaps the active panel down to the end.\<close>

function endwindow_loop :: "int \<Rightarrow> registry \<Rightarrow> crash + registry" where
  "endwindow_loop i r =
     (if i < int (numpanels r) - 1 then
        (case panelswap r i (i + 1) of
           Inl e \<Rightarrow> Inl e
         | Inr (ret, r') \<Rightarrow> endwindow_loop (i + 1) r')
      else Inr r)"
  by pat_completeness auto
termination
  by (relation "measure (\<lambda>(i, r). nat (int (numpanels r) - 1 - i))")
    (auto simp: panelswap_def split: if_splits)

declare endwindow_loop.simps [simp del]

text \<open>\<open>case QUIT:\<close>, which \<open>case RESTART:\<close> falls through to.\<close>

definition quit_command :: "mainvars \<Rightarrow> mainvars" where
  "quit_command v =
     (if \<not> confirmquit v \<or> numpanels (reg v) = 0 then v\<lparr>run := False\<rparr>
      else v\<lparr>showconfirm := True, confirmselected := 0\<rparr>)"

text \<open>
  \<open>case HIDEWINDOW: case OKWINDOW:\<close>. The second component of the result is the value
  of \<open>command\<close> (here \<open>cmd\<close>) when the loop tests it next: \<open>NOCOMMAND\<close> after the end of the loop body,
  another command where the code sets one and says \<open>continue\<close>.
\<close>

definition hide_or_ok :: "mainvars \<Rightarrow> int \<Rightarrow> crash + mainvars \<times> int" where
  "hide_or_ok v cmd =
     (if showpanel v then Inr (v\<lparr>showpanel := False\<rparr>, NOCOMMAND)
      else if showprogs v then
        let v1 = v\<lparr>showprogs := False\<rparr> in
        if cmd = HIDEWINDOW then Inr (v1, NOCOMMAND)
        else if progselected v1 < 0 \<or> progselected v1 \<ge> int MAXPROGRAMS then Inl OutOfBounds
        else
          let p = program (programs v1 (nat (progselected v1)));
              t = title (programs v1 (nat (progselected v1)))
          in
          (case p of
             Some path \<Rightarrow> Inr (v1\<lparr>forked := path # forked v1\<rparr>, NOCOMMAND)
           | None \<Rightarrow>
               (case t of
                  None \<Rightarrow> Inl NullString
                | Some ts \<Rightarrow>
                    if ts = ''resize'' then Inr (v1, RESIZE)
                    else if ts = ''loglist'' then Inr (v1, LOGLIST)
                    else if ts = ''positionfix'' then Inr (v1, POSITIONFIX)
                    else if ts = ''restart'' then Inr (v1, RESTART)
                    else if ts = ''quit'' then Inr (v1, QUIT)
                    else Inr (v1, NOCOMMAND)))
      else if showconfirm v then
        let v1 = v\<lparr>showconfirm := False\<rparr> in
        if cmd = HIDEWINDOW then Inr (v1, NOCOMMAND)
        else if confirmselected v1 = 0 then Inr (v1\<lparr>run := False\<rparr>, NOCOMMAND)
        else Inr (v1\<lparr>showconfirm := False\<rparr>, NOCOMMAND)
      else Inr (v, NOCOMMAND))"

text \<open>\<open>case UPWINDOW: case DOWNWINDOW:\<close>.\<close>

definition up_or_down :: "mainvars \<Rightarrow> int \<Rightarrow> (crash + mainvars) option" where
  "up_or_down v cmd =
     (let i = (if cmd = UPWINDOW then - 1 else 1) in
      case (if showpanel v then switch_panel v i else Some (Inr v)) of
        None \<Rightarrow> None
      | Some (Inl e) \<Rightarrow> Some (Inl e)
      | Some (Inr v1) \<Rightarrow>
          (case (if showprogs v1
                 then map_sum id (\<lambda>n. v1\<lparr>progselected := n\<rparr>)
                        (MODULEINCREASE (progselected v1) (int (numprograms v1)) i)
                 else Inr v1) of
             Inl e \<Rightarrow> Some (Inl e)
           | Inr v2 \<Rightarrow>
               (case (if showconfirm v2
                      then map_sum id (\<lambda>n. v2\<lparr>confirmselected := n\<rparr>)
                             (MODULEINCREASE (confirmselected v2) 2 i)
                      else Inr v2) of
                  Inl e \<Rightarrow> Some (Inl e)
                | Inr v3 \<Rightarrow> Some (Inr v3))))"

text \<open>The \<open>switch (command)\<close> of the loop body, up to the end of the body.\<close>

definition main_switch :: "mainvars \<Rightarrow> int \<Rightarrow> (crash + mainvars \<times> int) option" where
  "main_switch v cmd =
     (let done = (\<lambda>r. map_option (map_sum id (\<lambda>v'. (v', NOCOMMAND))) r) in
      if cmd = NOCOMMAND then Some (Inr (v, NOCOMMAND))
      else if cmd = NEXTPANEL \<or> cmd = PREVPANEL
      then done (switch_panel v (if cmd = PREVPANEL then - 1 else 1))
      else if cmd = RESTART then Some (Inr (quit_command (v\<lparr>restart := True\<rparr>), NOCOMMAND))
      else if cmd = QUIT then Some (Inr (quit_command v, NOCOMMAND))
      else if cmd = PANELWINDOW
      then Some (Inr (v\<lparr>showpanel := True, showprogs := False, showconfirm := False\<rparr>, NOCOMMAND))
      else if cmd = PROGSWINDOW
      then Some (Inr (v\<lparr>showprogs := True, showpanel := False, showconfirm := False\<rparr>, NOCOMMAND))
      else if cmd = CONFIRMWINDOW
      then Some (Inr (v\<lparr>showconfirm := True, showpanel := False, showprogs := False\<rparr>, NOCOMMAND))
      else if cmd = UPWINDOW \<or> cmd = DOWNWINDOW then done (up_or_down v cmd)
      else if cmd = HIDEWINDOW \<or> cmd = OKWINDOW then Some (hide_or_ok v cmd)
      else if cmd = KOWINDOW then
        (if showpanel v \<and> activepanel (reg v) \<noteq> - 1 then
           (if activepanel (reg v) < 0 then Some (Inl OutOfBounds)
            else Some (Inr (v\<lparr>closed := content (panel (reg v) (nat (activepanel (reg v)))) # closed v\<rparr>,
                            NOCOMMAND)))
         else Some (Inr (v, NOCOMMAND)))
      else if cmd = ENDWINDOW then
        (if showpanel v \<and> activepanel (reg v) \<noteq> - 1 \<and>
            activepanel (reg v) < int (numpanels (reg v)) - 1 then
           (case endwindow_loop (activepanel (reg v)) (reg v) of
              Inl e \<Rightarrow> Some (Inl e)
            | Inr r \<Rightarrow> Some (Inr (v\<lparr>reg := r\<lparr>activepanel := int (numpanels r) - 1\<rparr>\<rparr>, NOCOMMAND)))
         else Some (Inr (v, NOCOMMAND)))
      else if cmd = RESIZE then Some (Inr (v, NOCOMMAND))
      else if cmd = LOGLIST then Some (Inr (v, NOCOMMAND))
      else if cmd = POSITIONFIX
      then Some (Inr (v\<lparr>overridefix := \<not> overridefix v\<rparr>, NOCOMMAND))
      else Some (Inr (v, NOCOMMAND)))"

text \<open>
  The number of panels before the active one that are not withdrawn: the loop that
  computes \<open>j\<close> for a command \<open>NUMWINDOW(n)\<close> in the panel list.
\<close>

definition panels_before :: "registry \<Rightarrow> int" where
  "panels_before r =
     int (length (filter (\<lambda>i. \<not> withdrawn (panel r i)) [0..<nat (activepanel r)]))"

text \<open>
  One round of \<open>while (command != NOCOMMAND)\<close>: the result is the variables and the
  value of \<open>command\<close> at the next test.
\<close>

definition main_command :: "mainvars \<Rightarrow> int \<Rightarrow> (crash + mainvars \<times> int) option" where
  "main_command v cmd0 =
     (let cmd = toggle_command v cmd0 in
      if NUMWINDOW 1 \<le> cmd then
        (if showpanel v \<and> activepanel (reg v) = - 1 then Some (Inr (v, cmd))
         else
           (case (if showpanel v
                  then switch_panel v (cmd - NUMWINDOW 1 - panels_before (reg v))
                  else Some (Inr v)) of
              None \<Rightarrow> None
            | Some (Inl e) \<Rightarrow> Some (Inl e)
            | Some (Inr v1) \<Rightarrow>
                main_switch
                  (if showprogs v1 then v1\<lparr>progselected := cmd - NUMWINDOW 1\<rparr> else v1)
                  OKWINDOW))
      else main_switch v cmd)"

partial_function (option) execute_command :: "mainvars \<Rightarrow> int \<Rightarrow> (crash + mainvars) option" where
  "execute_command v cmd =
     (if cmd = NOCOMMAND then Some (Inr v)
      else
        (case main_command v cmd of
           None \<Rightarrow> None
         | Some (Inl e) \<Rightarrow> Some (Inl e)
         | Some (Inr (v', cmd')) \<Rightarrow> execute_command v' cmd'))"

declare execute_command.simps [code]

subsection \<open>The events of the main loop that change the registry\<close>

text \<open>
  The statements \<open>panelleave(dsp); activepanel = pn; panelenter(dsp, root);\<close> of
  \<open>case MapNotify:\<close> and \<open>case UnmapNotify:\<close>.
\<close>

definition switch_to :: "mainvars \<Rightarrow> int \<Rightarrow> crash + mainvars" where
  "switch_to v pn =
     (case panelenter ((panelleave (reg v))\<lparr>activepanel := pn\<rparr>) of
        Inl e \<Rightarrow> Inl e
      | Inr r \<Rightarrow> Inr (v\<lparr>reg := r\<rparr>))"

text \<open>
  What \<open>case DestroyNotify:\<close> and \<open>case UnmapNotify:\<close> do after \<open>panelremove\<close>: they
  enter the active panel when \<open>numactive\<close> is positive, stop the main loop when no panel
  is left and \<open>quitonlastclose\<close> (here \<open>q\<close>) is set, and reset the active index
  otherwise. The second component of the result tells that the \<open>break\<close> after
  \<open>run = False\<close> was taken.
\<close>

definition enter_or_quit :: "bool \<Rightarrow> mainvars \<Rightarrow> crash + mainvars \<times> bool" where
  "enter_or_quit q v =
     (if numactive (reg v) > 0 then
        (case panelenter (reg v) of
           Inl e \<Rightarrow> Inl e
         | Inr r \<Rightarrow> Inr (v\<lparr>reg := r\<rparr>, False))
      else if numpanels (reg v) = 0 \<and> q then Inr (v\<lparr>run := False\<rparr>, True)
      else Inr (v\<lparr>reg := (reg v)\<lparr>activepanel := - 1\<rparr>\<rparr>, False))"

text \<open>
  \<open>case MapRequest:\<close> for the window \<open>w\<close>: \<open>p\<close> is the window created for the panel,
  \<open>wmname\<close> the answer of \<open>XGetWMName\<close> and \<open>ld\<close> the window of
  \<open>XGetTransientForHint\<close>, \<open>None\<close> (0) when there is none. \<open>panelresize\<close> sends
  requests to the X server and changes no variable.
\<close>

definition main_MapRequest ::
  "mainvars \<Rightarrow> window \<Rightarrow> window \<Rightarrow> string option \<Rightarrow> window \<Rightarrow> crash + mainvars" where
  "main_MapRequest v p w wmname ld =
     (case paneladd (reg v) p w wmname ld of
        (pn, out, r) \<Rightarrow>
          if pn = - 1 then Inr v
          else
            (case panelenter ((if activepanel r \<noteq> - 1 then panelleave r else r)
                                \<lparr>activepanel := pn\<rparr>) of
               Inl e \<Rightarrow> Inl e
             | Inr r' \<Rightarrow> Inr (v\<lparr>reg := r'\<rparr>)))"

text \<open>
  \<open>case DestroyNotify:\<close> for a window whose parent (the field \<open>event\<close>) is \<open>p\<close>;
  \<open>overrideremove\<close> changes the table of the override windows only.
\<close>

definition main_DestroyNotify :: "bool \<Rightarrow> mainvars \<Rightarrow> window \<Rightarrow> (crash + mainvars) option" where
  "main_DestroyNotify q v p =
     (let pn = panelfind (reg v) p PANEL in
      if pn = - 1 then Some (Inr v)
      else
        (case panelremove (reg v) pn True of
           None \<Rightarrow> None
         | Some (Inl e) \<Rightarrow> Some (Inl e)
         | Some (Inr (ret, r)) \<Rightarrow> Some (map_sum id fst (enter_or_quit q (v\<lparr>reg := r\<rparr>)))))"

text \<open>
  \<open>case MapNotify:\<close> and \<open>case UnmapNotify:\<close> for the window \<open>w\<close>; \<open>send_event\<close> is the
  field of that name of the event. The call of \<open>overrideplace\<close> in \<open>case MapNotify:\<close>
  changes the table of the override windows only.
\<close>

definition main_MapNotify :: "mainvars \<Rightarrow> window \<Rightarrow> crash + mainvars" where
  "main_MapNotify v w =
     (let pn = panelfind (reg v) w CONTENT in
      if pn = - 1 \<or> pn = activepanel (reg v) then Inr v else switch_to v pn)"

definition main_UnmapNotify ::
  "bool \<Rightarrow> mainvars \<Rightarrow> window \<Rightarrow> bool \<Rightarrow> (crash + mainvars) option" where
  "main_UnmapNotify q v w send_event =
     (let pn = panelfind (reg v) w CONTENT in
      if pn = - 1 then Some (Inr v)
      else
        (case (if send_event then
                 (case panelremove (reg v) pn False of
                    None \<Rightarrow> None
                  | Some (Inl e) \<Rightarrow> Some (Inl e)
                  | Some (Inr (ret, r)) \<Rightarrow> Some (enter_or_quit q (v\<lparr>reg := r\<rparr>)))
               else Some (Inr (v, False))) of
           None \<Rightarrow> None
         | Some (Inl e) \<Rightarrow> Some (Inl e)
         | Some (Inr (v1, stop)) \<Rightarrow>
             if stop then Some (Inr v1)
             else
               let ld = leader (panel (reg v1) (nat pn)) in
               if ld = 0 then Some (Inr v1)
               else
                 let pn2 = panelfind (reg v1) ld CONTENT in
                 if pn2 = - 1 \<or> pn2 = activepanel (reg v1) then Some (Inr v1)
                 else Some (switch_to v1 pn2)))"

text \<open>
  \<open>drawpanel\<close>, which the event \<open>Expose\<close> of the panel list calls: it refreshes the name
  of each panel that is not withdrawn (\<open>wmnames i\<close> is the answer of \<open>XGetWMName\<close> for
  the content of slot \<open>i\<close>) and lists these panels in the order of the array.
  \<open>drawpanel_elements\<close> is the slots listed: entry \<open>j\<close> of the list shows the panel of
  slot \<open>drawpanel_elements r ! j\<close>.
\<close>

definition drawpanel :: "registry \<Rightarrow> (nat \<Rightarrow> string option) \<Rightarrow> registry" where
  "drawpanel r wmnames =
     r\<lparr>panel := (\<lambda>i. if i < numpanels r \<and> \<not> withdrawn (panel r i)
                       then (panel r i)\<lparr>name := panelname (wmnames i)\<rparr> else panel r i)\<rparr>"

definition drawpanel_elements :: "registry \<Rightarrow> nat list" where
  "drawpanel_elements r = filter (\<lambda>i. \<not> withdrawn (panel r i)) [0..<numpanels r]"

subsection \<open>Notions the properties are stated with\<close>

text \<open>
  The number of slots from \<open>lo\<close> up to \<open>hi\<close> whose panel is not withdrawn, and the
  number of registered panels that are not withdrawn.
\<close>

definition live_between :: "(nat \<Rightarrow> struct_panel) \<Rightarrow> nat \<Rightarrow> nat \<Rightarrow> nat" where
  "live_between a lo hi = length (filter (\<lambda>i. \<not> withdrawn (a i)) [lo..<hi])"

definition live_count :: "registry \<Rightarrow> nat" where
  "live_count r = live_between (panel r) 0 (numpanels r)"

text \<open>The counter \<open>numactive\<close> agrees with the registered panels.\<close>

definition numactive_ok :: "registry \<Rightarrow> bool" where
  "numactive_ok r = (numactive r = int (live_count r))"

text \<open>The active index is the index of a registered panel that is not withdrawn.\<close>

definition active_live :: "registry \<Rightarrow> bool" where
  "active_live r =
     (0 \<le> activepanel r \<and> activepanel r < int (numpanels r) \<and>
      \<not> withdrawn (panel r (nat (activepanel r))))"

text \<open>\<open>panelswitch\<close> with direction \<open>+1\<close>, applied \<open>m\<close> times in succession.\<close>

fun switch_times :: "nat \<Rightarrow> registry \<Rightarrow> (crash + registry) option" where
  "switch_times 0 r = Some (Inr r)"
| "switch_times (Suc m) r =
     (case panelswitch r 1 of
        None \<Rightarrow> None
      | Some (Inl e) \<Rightarrow> Some (Inl e)
      | Some (Inr (ret, r')) \<Rightarrow> switch_times m r')"

text \<open>The registered panels, in the order of the array.\<close>

definition panels :: "registry \<Rightarrow> struct_panel list" where
  "panels r = map (panel r) [0..<numpanels r]"

text \<open>
  The registries the main loop can reach: it starts from the initial values of the
  variables and changes them only through the functions of the registry, by assigning
  the active index and the active window, and by refreshing a name in \<open>drawpanel\<close>.
\<close>

definition registry_init :: "bool \<Rightarrow> registry" where
  "registry_init u =
     \<lparr>panel = (\<lambda>i. \<lparr>panelwin = 0, content = 0, name = [], leader = 0, withdrawn = False\<rparr>),
      numpanels = 0, numactive = 0, activepanel = - 1, activecontent = 0,
      unmaponleave = u, activewindow = 0\<rparr>"

inductive reachable :: "registry \<Rightarrow> bool" where
  start: "reachable (registry_init u)"
| add: "reachable r \<Longrightarrow> paneladd r p w wmname ld = (ret, out, r') \<Longrightarrow> reachable r'"
| remove: "reachable r \<Longrightarrow> panelremove r pn destroy = Some (Inr (ret, r')) \<Longrightarrow> reachable r'"
| enter: "reachable r \<Longrightarrow> panelenter r = Inr r' \<Longrightarrow> reachable r'"
| switch: "reachable r \<Longrightarrow> panelswitch r rel = Some (Inr (ret, r')) \<Longrightarrow> reachable r'"
| swap: "reachable r \<Longrightarrow> panelswap r pn1 pn2 = Inr (ret, r') \<Longrightarrow> reachable r'"
| activate: "reachable r \<Longrightarrow> reachable (r\<lparr>activepanel := a\<rparr>)"
| activewin: "reachable r \<Longrightarrow> reachable (r\<lparr>activewindow := w\<rparr>)"
| rename: "reachable r \<Longrightarrow>
     reachable (r\<lparr>panel := (panel r)(i := (panel r i)\<lparr>name := panelname wmname\<rparr>)\<rparr>)"

text \<open>
  The values of the variables of \<open>main\<close> between two events and at the head of the loop
  \<open>while (command != NOCOMMAND)\<close>. The main loop starts with an empty registry
  (\<open>unmaponleave\<close> is set by the option \<open>-u\<close>) and no list shown; an event
  \<open>MapRequest\<close>, \<open>DestroyNotify\<close>, \<open>MapNotify\<close>, \<open>UnmapNotify\<close>, a message
  \<open>_NET_ACTIVE_WINDOW\<close>, an event \<open>Expose\<close> of the panel list and a round of the loop
  of the commands, whatever the command is, lead from one to the next. The other
  events change no variable of the registry. \<open>q\<close> is \<open>quitonlastclose\<close>.
\<close>

inductive main_reachable :: "bool \<Rightarrow> mainvars \<Rightarrow> bool" for q :: bool where
  init: "reg v = registry_init u \<Longrightarrow> \<not> restart v \<Longrightarrow>
    \<not> showpanel v \<Longrightarrow> \<not> showprogs v \<Longrightarrow> \<not> showconfirm v \<Longrightarrow>
    progselected v = 0 \<Longrightarrow> confirmselected v = 0 \<Longrightarrow> main_reachable q v"
| map_request: "main_reachable q v \<Longrightarrow> main_MapRequest v p w wmname ld = Inr v' \<Longrightarrow>
    main_reachable q v'"
| destroy_notify: "main_reachable q v \<Longrightarrow> main_DestroyNotify q v p = Some (Inr v') \<Longrightarrow>
    main_reachable q v'"
| map_notify: "main_reachable q v \<Longrightarrow> main_MapNotify v w = Inr v' \<Longrightarrow> main_reachable q v'"
| unmap_notify: "main_reachable q v \<Longrightarrow> main_UnmapNotify q v w send_event = Some (Inr v') \<Longrightarrow>
    main_reachable q v'"
| active_window: "main_reachable q v \<Longrightarrow>
    main_reachable q (v\<lparr>reg := (reg v)\<lparr>activewindow := w\<rparr>\<rparr>)"
| expose: "main_reachable q v \<Longrightarrow> main_reachable q (v\<lparr>reg := drawpanel (reg v) wmnames\<rparr>)"
| command: "main_reachable q v \<Longrightarrow> main_command v cmd = Some (Inr (v', cmd')) \<Longrightarrow>
    main_reachable q v'"

text \<open>
  The registry in these states: \<open>numactive\<close> counts the panels that are not withdrawn,
  and the active index is \<open>-1\<close> when there is none and the index of one of them
  otherwise. \<open>active_in_range\<close> is what \<open>panelremove\<close> leaves of it: the active index is
  that of a registered panel, withdrawn or not.
\<close>

definition active_in_range :: "registry \<Rightarrow> bool" where
  "active_in_range r =
     (if numactive r = 0 then activepanel r = - 1
      else 0 \<le> activepanel r \<and> activepanel r < int (numpanels r))"

definition registry_inv :: "registry \<Rightarrow> bool" where
  "registry_inv r =
     (numactive_ok r \<and> (if numactive r = 0 then activepanel r = - 1 else active_live r))"

text \<open>
  What holds before the round \<open>i\<close> of the loop of \<open>panelremove\<close> over \<open>n\<close> slots, with
  the write position \<open>j\<close>: the slots below \<open>j\<close> are the panels kept so far, the slots
  from \<open>i\<close> on are still to be looked at, and \<open>numactive\<close> counts the panels of both
  parts that are not withdrawn.
\<close>

definition remove_inv :: "nat \<Rightarrow> nat \<Rightarrow> nat \<Rightarrow> registry \<Rightarrow> bool" where
  "remove_inv n i j r =
     (j \<le> i \<and> i \<le> n \<and> numpanels r + i = n + j \<and>
      numactive r = int (live_between (panel r) 0 j) + int (live_between (panel r) i n))"

text \<open>
  The panels that \<open>panelremove\<close> with \<open>destroy\<close> is to keep, for the index \<open>pn\<close> and its
  content \<open>c\<close>, and what holds before the round \<open>i\<close> of its loop with respect to the array
  \<open>a\<close> the call started with: the slots below \<open>j\<close> are the panels of the slots below \<open>i\<close>
  that are kept, in their order, and the slots from \<open>i\<close> on are untouched.
\<close>

definition kept :: "int \<Rightarrow> window \<Rightarrow> (nat \<Rightarrow> struct_panel) \<Rightarrow> nat \<Rightarrow> bool" where
  "kept pn c a m = (\<not> (int m = pn \<or> leader (a m) = c))"

definition destroy_inv ::
  "int \<Rightarrow> window \<Rightarrow> (nat \<Rightarrow> struct_panel) \<Rightarrow> nat \<Rightarrow> nat \<Rightarrow> nat \<Rightarrow> registry \<Rightarrow> bool" where
  "destroy_inv pn c a n i j r =
     (j \<le> i \<and> i \<le> n \<and> numpanels r + i = n + j \<and> (\<forall>m\<ge>i. panel r m = a m) \<and>
      map (panel r) [0..<j] = map a (filter (kept pn c a) [0..<i]))"

text \<open>
  The registry after the first statements of a round of \<open>panelremove\<close> for a slot \<open>i\<close>
  that is removed: \<open>numactive\<close> is decremented if the panel is not withdrawn, and the
  panel is destroyed (\<open>numpanels\<close> is decremented) or marked as withdrawn.
\<close>

definition matched_slot :: "bool \<Rightarrow> nat \<Rightarrow> registry \<Rightarrow> registry" where
  "matched_slot d i r =
     (let r1 = (if \<not> withdrawn (panel r i) then r\<lparr>numactive := numactive r - 1\<rparr> else r)
      in if d then r1\<lparr>numpanels := numpanels r1 - 1\<rparr>
         else if \<not> withdrawn (panel r1 i)
         then r1\<lparr>panel := (panel r1)(i := (panel r1 i)\<lparr>withdrawn := True\<rparr>)\<rparr>
         else r1)"

text \<open>
  The number of panels in the first \<open>n\<close> slots of the array \<open>a\<close> that \<open>panelremove\<close>
  for the index \<open>pn\<close> with content \<open>c\<close> destroys or withdraws and that are not
  withdrawn in \<open>a\<close>. Before the round \<open>i\<close> of the loop \<open>numactive\<close> has lost as many as
  there are below \<open>i\<close>, where \<open>na\<close> is its value at the call.
\<close>

definition removed_live :: "int \<Rightarrow> window \<Rightarrow> (nat \<Rightarrow> struct_panel) \<Rightarrow> nat \<Rightarrow> nat" where
  "removed_live pn c a n =
     length (filter (\<lambda>m. (int m = pn \<or> leader (a m) = c) \<and> \<not> withdrawn (a m)) [0..<n])"

definition count_inv ::
  "int \<Rightarrow> window \<Rightarrow> (nat \<Rightarrow> struct_panel) \<Rightarrow> int \<Rightarrow> nat \<Rightarrow> nat \<Rightarrow> registry \<Rightarrow> bool" where
  "count_inv pn c a na i j r =
     (j \<le> i \<and> (\<forall>m\<ge>i. panel r m = a m) \<and> numactive r = na - int (removed_live pn c a i))"

text \<open>
  What holds of the active index before the round \<open>i\<close> of the loop of \<open>panelremove\<close>
  over \<open>n\<close> slots: while \<open>numactive\<close> is positive, it is below \<open>numpanels\<close>.
\<close>

definition active_inv :: "bool \<Rightarrow> nat \<Rightarrow> nat \<Rightarrow> nat \<Rightarrow> registry \<Rightarrow> bool" where
  "active_inv d n i j r =
     ((d \<longrightarrow> j \<le> i \<and> numpanels r + i = n + j) \<and>
      (0 < numactive r \<longrightarrow> 0 \<le> activepanel r \<and> activepanel r < int (numpanels r)))"

text \<open>
  Every registered panel is withdrawn, the active index is the index of one of them
  and the direction is one step up or down.
\<close>

definition all_withdrawn :: "registry \<Rightarrow> int \<Rightarrow> bool" where
  "all_withdrawn r rel =
     ((rel = 1 \<or> rel = - 1) \<and> 0 \<le> activepanel r \<and> activepanel r < int (numpanels r) \<and>
      (\<forall>i<numpanels r. withdrawn (panel r i)))"

subsection \<open>Concrete states\<close>

definition mkpanel :: "window \<Rightarrow> window \<Rightarrow> bool \<Rightarrow> struct_panel" where
  "mkpanel c ld wd = \<lparr>panelwin = 100 + c, content = c, name = ''w'', leader = ld, withdrawn = wd\<rparr>"

text \<open>
  Four panels: a leader (content 10, active), a withdrawn panel, a panel of the
  leader's group, and one more.
\<close>

definition group_registry :: registry where
  "group_registry =
     \<lparr>panel = (\<lambda>i. mkpanel 0 0 False)
        (0 := mkpanel 10 0 False, 1 := mkpanel 11 0 True, 2 := mkpanel 12 10 False,
         3 := mkpanel 13 0 False),
      numpanels = 4, numactive = 3, activepanel = 0, activecontent = 10,
      unmaponleave = False, activewindow = 10\<rparr>"

text \<open>
  The registry after the rounds \<open>i = 0\<close> and \<open>i = 1\<close> of the loop of \<open>panelremove\<close> on
  \<open>group_registry\<close> for panel 0 with \<open>destroy\<close>.
\<close>

definition group_registry_2 :: registry where
  "group_registry_2 =
     \<lparr>panel = (\<lambda>i. mkpanel 0 0 False)
        (0 := mkpanel 11 0 True, 1 := mkpanel 11 0 True, 2 := mkpanel 12 10 False,
         3 := mkpanel 13 0 False),
      numpanels = 3, numactive = 2, activepanel = 1, activecontent = 0,
      unmaponleave = False, activewindow = 10\<rparr>"

text \<open>Two panels, none withdrawn, the first one active.\<close>

definition two_panels :: registry where
  "two_panels =
     \<lparr>panel = (\<lambda>i. mkpanel 0 0 False)(0 := mkpanel 10 0 False, 1 := mkpanel 11 0 False),
      numpanels = 2, numactive = 2, activepanel = 0, activecontent = 10,
      unmaponleave = False, activewindow = 10\<rparr>"

text \<open>
  \<open>two_panels\<close> with the second panel withdrawn and the main loop about to enter it.
\<close>

definition second_withdrawn :: registry where
  "second_withdrawn =
     \<lparr>panel = (\<lambda>i. mkpanel 0 0 False)(0 := mkpanel 10 0 False, 1 := mkpanel 11 0 True),
      numpanels = 2, numactive = 1, activepanel = 1, activecontent = 10,
      unmaponleave = False, activewindow = 10\<rparr>"

text \<open>
  The variables of \<open>main\<close> with two panels, the program list of a missing
  configuration file (\<open>xterm\<close> and \<open>quit\<close>), confirmation on quit, and the panel list
  shown.
\<close>

definition panel_list_shown :: mainvars where
  "panel_list_shown =
     \<lparr>reg = two_panels,
      programs = (\<lambda>i. \<lparr>title = None, program = None\<rparr>)
        (0 := \<lparr>title = Some ''xterm'', program = Some ''/usr/bin/xterm''\<rparr>,
         1 := \<lparr>title = Some ''quit'', program = None\<rparr>),
      numprograms = 2, singlekey = False, overridefix = False, confirmquit = True,
      run = True, restart = False, showpanel = True, showprogs = False,
      showconfirm = False, progselected = 0, confirmselected = 0, forked = [],
      closed = []\<rparr>"

text \<open>
  The variables of \<open>main\<close> when the main loop starts (without the option \<open>-u\<close>),
  after a \<open>MapRequest\<close> for the window 10, and after another one for the window 11.
\<close>

definition no_window :: mainvars where
  "no_window = panel_list_shown\<lparr>reg := registry_init False, showpanel := False\<rparr>"

definition one_mapped :: mainvars where
  "one_mapped =
     no_window\<lparr>reg :=
       \<lparr>panel = (panel (registry_init False))(0 := mkpanel 10 0 False),
        numpanels = 1, numactive = 1, activepanel = 0, activecontent = 10,
        unmaponleave = False, activewindow = 10\<rparr>\<rparr>"

definition two_mapped :: mainvars where
  "two_mapped =
     no_window\<lparr>reg :=
       \<lparr>panel = (panel (registry_init False))(0 := mkpanel 10 0 False, 1 := mkpanel 11 0 False),
        numpanels = 2, numactive = 2, activepanel = 1, activecontent = 11,
        unmaponleave = False, activewindow = 11\<rparr>\<rparr>"

text \<open>
  The registry after \<open>paneladd\<close> for the windows 10 and 11 from the initial values, and
  the same with the second panel withdrawn and its index made the active one.
\<close>

definition two_added :: registry where
  "two_added =
     \<lparr>panel = (panel (registry_init False))(0 := mkpanel 10 0 False, 1 := mkpanel 11 0 False),
      numpanels = 2, numactive = 2, activepanel = - 1, activecontent = 0,
      unmaponleave = False, activewindow = 0\<rparr>"

definition withdrawn_active :: registry where
  "withdrawn_active =
     \<lparr>panel = (panel (registry_init False))(0 := mkpanel 10 0 False, 1 := mkpanel 11 0 True),
      numpanels = 2, numactive = 1, activepanel = 1, activecontent = 0,
      unmaponleave = False, activewindow = 0\<rparr>"

text \<open>
  A table of override windows with one window, a menu that reaches beyond the right
  border of a root window of 800 by 600, and a table and a registry that are full.
\<close>

definition free_slot :: override_slot where
  "free_slot = \<lparr>win = 0, nx = UNMOVED, ny = UNMOVED, ontop = False\<rparr>"

definition one_override :: overrides where
  "one_override = \<lparr>override = (\<lambda>i. free_slot)(0 := free_slot\<lparr>win := 7\<rparr>), numoverride = 1\<rparr>"

definition one_override_placed :: overrides where
  "one_override_placed =
     \<lparr>override = (\<lambda>i. free_slot)(0 := \<lparr>win = 7, nx = 4, ny = 10, ontop = False\<rparr>),
      numoverride = 1\<rparr>"

definition root_geometry :: XWindowAttributes where
  "root_geometry = \<lparr>wa_x = 0, wa_y = 0, wa_width = 800, wa_height = 600, wa_border_width = 0\<rparr>"

definition menu_geometry :: XWindowAttributes where
  "menu_geometry = \<lparr>wa_x = 700, wa_y = 10, wa_width = 200, wa_height = 100, wa_border_width = 1\<rparr>"

definition full_overrides :: overrides where
  "full_overrides = \<lparr>override = (\<lambda>i. free_slot\<lparr>win := 1 + i\<rparr>), numoverride = 1000\<rparr>"

definition full_registry :: registry where
  "full_registry =
     \<lparr>panel = (\<lambda>i. mkpanel (2000 + i) 0 False),
      numpanels = 1000, numactive = 1000, activepanel = 0, activecontent = 2000,
      unmaponleave = False, activewindow = 2000\<rparr>"

section \<open>Properties\<close>

subsection \<open>Names and identifiers of commands\<close>

lemma commandstring_roundtrip:
  "list_all (\<lambda>e. string e = None \<or> stringtocommand (commandtostring (command e)) = command e)
     commandstring"
  by (simp add: commandtostring_def stringtocommand_def commandstring_def command_defs)

text \<open>
  C7. Converting an identifier to its name and the name back gives the identifier for
  every row of the table (\<open>commandstring_roundtrip\<close>), but not for the identifiers
  \<open>NUMWINDOW(n)\<close> outside the table: \<open>commandtostring\<close> prints the identifier itself
  between the parentheses, not \<open>n\<close>, and \<open>stringtocommand\<close> adds 100 to what it reads
  there. For \<open>NUMWINDOW(10)\<close>, which is 110, the name is \<open>NUMWINDOW(110)\<close> and the way
  back gives 210.
\<close>

theorem commandtostring_NUMWINDOW_10:
  "commandtostring (NUMWINDOW 10) = ''NUMWINDOW(110)'' \<and>
   stringtocommand (commandtostring (NUMWINDOW 10)) = 210 \<and>
   NUMWINDOW 10 = 110"
proof -
  have printed: "commandtostring (NUMWINDOW 10) = ''NUMWINDOW(110)''"
    by (simp add: commandtostring_def commandstring_def command_defs printf_d_def
        decimal.simps digitchar_def)
  have parsed: "stringtocommand ''NUMWINDOW(110)'' = 210"
    by (simp add: stringtocommand_def commandstring_def command_defs sscanf_NUMWINDOW_def
        scan_d_def scan_unsigned_def digitval_def isspace_def)
  show ?thesis
    by (simp add: printed parsed) (simp add: NUMWINDOW_def)
qed

subsection \<open>Errors of the X protocol\<close>

text \<open>
  C5. The main loop swallows an error exactly when it is a \<open>BadWindow\<close> error of one of
  the requests \<open>X_MapWindow\<close>, \<open>X_ChangeProperty\<close>, \<open>X_SetInputFocus\<close>,
  \<open>X_ConfigureWindow\<close>, \<open>X_GetWindowAttributes\<close>, or a \<open>BadAtom\<close> error of the request
  \<open>X_GetAtomName\<close>; every other error goes to the default handler.
\<close>

theorem main_Error_swallowed:
  "swallowed (main_Error err) =
     (error_code err = BadWindow \<and>
      request_code err \<in>
        {X_MapWindow, X_ChangeProperty, X_SetInputFocus, X_ConfigureWindow,
         X_GetWindowAttributes} \<or>
      error_code err = BadAtom \<and> request_code err = X_GetAtomName) \<and>
   (main_Error err = DefaultHandler) = (\<not> swallowed (main_Error err))"
  by (auto simp: main_Error_def swallowed_def)

subsection \<open>Placement of override windows\<close>

lemma overrideplace_from_keeps:
  "overrideplace_from i ov w rwa wa rnd k = (reqs, ov1, k1) \<Longrightarrow>
   numoverride ov1 = numoverride ov \<and> (\<forall>m. win (override ov1 m) = win (override ov m))"
proof (induction i ov w rwa wa rnd k rule: overrideplace_from.induct)
  case (1 i ov w rwa wa rnd k)
  show ?case
  proof (cases "i < numoverride ov \<and> win (override ov i) \<noteq> w")
    case True
    with "1.prems" have "overrideplace_from (i + 1) ov w rwa wa rnd k = (reqs, ov1, k1)"
      by (simp add: overrideplace_from.simps [of i])
    with True show ?thesis using "1.IH" by simp
  next
    case False
    with "1.prems" show ?thesis
      by (auto simp: overrideplace_from.simps [of i] Let_def split: if_splits prod.splits)
  qed
qed

lemma overrideplace_from_again:
  "overrideplace_from i ov w rwa wa rnd k = (reqs, ov1, k1) \<Longrightarrow>
   overrideplace_from i ov1 w rwa (geometry_after reqs w wa) rnd k1 = ([], ov1, k1)"
proof (induction i ov w rwa wa rnd k rule: overrideplace_from.induct)
  case (1 i ov w rwa wa rnd k)
  show ?case
  proof (cases "i < numoverride ov \<and> win (override ov i) \<noteq> w")
    case True
    with "1.prems" have later: "overrideplace_from (i + 1) ov w rwa wa rnd k = (reqs, ov1, k1)"
      by (simp add: overrideplace_from.simps [of i])
    from overrideplace_from_keeps [OF later] True
    have "i < numoverride ov1" "win (override ov1 i) \<noteq> w" by simp_all
    then have "overrideplace_from i ov1 w rwa (geometry_after reqs w wa) rnd k1 =
               overrideplace_from (i + 1) ov1 w rwa (geometry_after reqs w wa) rnd k1"
      by (simp add: overrideplace_from.simps [of i])
    also have "\<dots> = ([], ov1, k1)" using "1.IH" True later by simp
    finally show ?thesis .
  next
    case False
    with "1.prems" show ?thesis
      by (auto simp: overrideplace_from.simps [of i] Let_def split: if_splits prod.splits)
  qed
qed

text \<open>
  C6. With the toggle \<open>overridefix\<close> set, a second call of \<open>overrideplace\<close> for the same
  window, whose geometry has changed only by the move the first call requested, sends
  no request and leaves the table, and so the cached position, as the first call left
  it.
\<close>

theorem overrideplace_twice:
  "main_ConfigureNotify True ov w rwa wa rnd k = (reqs, ov1, k1) \<Longrightarrow>
   main_ConfigureNotify True ov1 w rwa (geometry_after reqs w wa) rnd k1 = ([], ov1, k1)"
  by (simp add: main_ConfigureNotify_def overrideplace_def overrideplace_from_again)

theorem overrideplace_twice_witness:
  "main_ConfigureNotify True one_override 7 root_geometry menu_geometry (\<lambda>n. 4) 0 =
     ([XMoveWindow 7 4 10, Overrideprint ''MOVE'' 0], one_override_placed, 3) \<and>
   main_ConfigureNotify True one_override_placed 7 root_geometry
     (menu_geometry\<lparr>wa_x := 4, wa_y := 10\<rparr>) (\<lambda>n. 4) 3 = ([], one_override_placed, 3)"
proof -
  have first: "main_ConfigureNotify True one_override 7 root_geometry menu_geometry (\<lambda>n. 4) 0 =
     ([XMoveWindow 7 4 10, Overrideprint ''MOVE'' 0], one_override_placed, 3)"
    by (simp add: main_ConfigureNotify_def overrideplace_def overrideplace_from.simps
        randombetween_def c_rem_def one_override_def one_override_placed_def free_slot_def
        root_geometry_def menu_geometry_def UNMOVED_def Let_def)
  from overrideplace_twice [OF first] first show ?thesis
    by simp
qed

subsection \<open>Full tables\<close>

text \<open>
  C8. When the table of override windows is full, \<open>overrideadd\<close> prints a warning and
  returns with the table as it was; when the registry is full, \<open>paneladd\<close> prints an
  error, returns \<open>-1\<close> and leaves the registry as it was. Both return to their caller.
\<close>

theorem add_when_full:
  "(MAXOVERRIDE \<le> numoverride ov \<longrightarrow>
      overrideadd ov w = ([Printf ''WARNING: too many override_redirect windows''], ov)) \<and>
   (MAXPANELS \<le> numpanels r \<longrightarrow>
      paneladd r p c wmname ld =
        (- 1, [Printf ''IRWM ERROR: too many open panels, not creating a new one''], r))"
  by (simp add: overrideadd_def paneladd_def)

theorem add_when_full_witness:
  "MAXOVERRIDE \<le> numoverride full_overrides \<and>
   overrideadd full_overrides 5 =
     ([Printf ''WARNING: too many override_redirect windows''], full_overrides) \<and>
   MAXPANELS \<le> numpanels full_registry \<and>
   paneladd full_registry 1 2 None 0 =
     (- 1, [Printf ''IRWM ERROR: too many open panels, not creating a new one''], full_registry)"
  using add_when_full [of full_overrides 5 full_registry 1 2 None 0]
  by (simp add: full_overrides_def full_registry_def MAXOVERRIDE_def MAXPANELS_def)

subsection \<open>The lists shown\<close>

text \<open>
  C2. \<open>case QUIT:\<close> sets \<open>showconfirm\<close> and leaves \<open>showpanel\<close> and \<open>showprogs\<close> as they
  are, where the cases \<open>PANELWINDOW\<close>, \<open>PROGSWINDOW\<close> and \<open>CONFIRMWINDOW\<close> clear the other two
  flags. With the panel list shown, two panels open and confirmation on quit, the
  command \<open>QUIT\<close> ends with the panel list and the confirm dialog both shown.
\<close>

theorem quit_keeps_panel_list:
  "execute_command panel_list_shown QUIT =
     Some (Inr (panel_list_shown\<lparr>showconfirm := True, confirmselected := 0\<rparr>)) \<and>
   showpanel (panel_list_shown\<lparr>showconfirm := True, confirmselected := 0\<rparr>) \<and>
   showconfirm (panel_list_shown\<lparr>showconfirm := True, confirmselected := 0\<rparr>)"
  by (simp add: execute_command.simps main_command_def toggle_command_def main_switch_def
      quit_command_def command_defs panel_list_shown_def two_panels_def Let_def)

subsection \<open>The loop that skips withdrawn panels\<close>

lemma c_rem_nonneg: "0 \<le> a \<Longrightarrow> 0 < b \<Longrightarrow> c_rem a b = a mod b"
  by (cases "a = 0") (simp_all add: c_rem_def)

lemma skip_withdrawn_not_all_withdrawn:
  assumes "skip_withdrawn r rel = Some y"
  shows "\<not> all_withdrawn r rel"
proof (rule skip_withdrawn.raw_induct [where P = "\<lambda>r rel y. \<not> all_withdrawn r rel", OF _ assms])
  fix loop :: "registry \<Rightarrow> int \<Rightarrow> (crash + registry) option"
  fix r rel y
  assume IH: "\<And>r' rel' y'. loop r' rel' = Some y' \<Longrightarrow> \<not> all_withdrawn r' rel'"
  assume body: "(case MODULEINCREASE (activepanel r) (int (numpanels r)) rel of
        Inl e \<Rightarrow> Some (Inl e)
      | Inr a \<Rightarrow>
          if a < 0 then Some (Inl OutOfBounds)
          else if withdrawn (panel r (nat a)) then loop (r\<lparr>activepanel := a\<rparr>) rel
          else Some (Inr (r\<lparr>activepanel := a\<rparr>))) = Some y"
  show "\<not> all_withdrawn r rel"
  proof
    assume all: "all_withdrawn r rel"
    define a where "a = (activepanel r + int (numpanels r) + rel) mod int (numpanels r)"
    from all have pos: "0 < int (numpanels r)" "0 \<le> activepanel r + int (numpanels r) + rel"
      by (auto simp: all_withdrawn_def)
    then have step: "MODULEINCREASE (activepanel r) (int (numpanels r)) rel = Inr a"
      by (simp add: MODULEINCREASE_def c_rem_nonneg a_def)
    from pos have range: "0 \<le> a" "a < int (numpanels r)"
      by (simp_all add: a_def)
    then have "nat a < numpanels r" by simp
    with all have wd: "withdrawn (panel r (nat a))" by (simp add: all_withdrawn_def)
    from body step range wd have "loop (r\<lparr>activepanel := a\<rparr>) rel = Some y"
      by simp
    from IH [OF this] all range show False
      by (auto simp: all_withdrawn_def)
  qed
qed

lemma skip_withdrawn_diverges:
  "all_withdrawn r rel \<Longrightarrow> skip_withdrawn r rel = None"
  using skip_withdrawn_not_all_withdrawn [of r rel] by (cases "skip_withdrawn r rel") auto

lemma panelremove_loop_split:
  "panelremove_loop pn c d m i j r = Some (Inr (j', r')) \<Longrightarrow> i \<le> m \<Longrightarrow> m \<le> n \<Longrightarrow>
   panelremove_loop pn c d n i j r = panelremove_loop pn c d n m j' r'"
proof (induction pn c d m i j r rule: panelremove_loop.induct)
  case (1 pn c d m i j r)
  show ?case
  proof (cases "i < m")
    case True
    with "1.prems" obtain j1 r1 where
      round: "panelremove_round pn c d i j r = Some (Inr (j1, r1))" and
      rest: "panelremove_loop pn c d m (i + 1) j1 r1 = Some (Inr (j', r'))"
      by (auto simp: panelremove_loop.simps [of pn c d m i] split: option.splits sum.splits)
    from True "1.prems" have "panelremove_loop pn c d n i j r = panelremove_loop pn c d n (i + 1) j1 r1"
      by (simp add: panelremove_loop.simps [of pn c d n i] round)
    also have "\<dots> = panelremove_loop pn c d n m j' r'"
      using "1.IH" [OF True round refl refl rest] True "1.prems" by simp
    finally show ?thesis .
  next
    case False
    with "1.prems" show ?thesis
      by (simp add: panelremove_loop.simps [of pn c d m i])
  qed
qed

lemma group_registry_two_rounds:
  "panelremove_loop 0 10 True 2 0 0 (group_registry\<lparr>activecontent := 0\<rparr>) =
     Some (Inr (1, group_registry_2))"
  by (simp add: panelremove_loop.simps panelremove_round_def keep_slot_def group_registry_def
      group_registry_2_def skip_withdrawn.simps MODULEINCREASE_def c_rem_def mkpanel_def
      Let_def fun_eq_iff)

lemma all_withdrawn_group_registry_2:
  "all_withdrawn (group_registry_2\<lparr>numactive := na, numpanels := 2\<rparr>) (- 1)"
  by (auto simp: all_withdrawn_def group_registry_2_def mkpanel_def less_Suc_eq numeral_2_eq_2)

lemma group_registry_2_skip:
  "skip_withdrawn (group_registry_2\<lparr>numactive := 1, numpanels := 2\<rparr>) (- 1) = None"
  by (rule skip_withdrawn_diverges) (rule all_withdrawn_group_registry_2)

lemma group_registry_2_fields:
  "leader (panel group_registry_2 2) = 10" "\<not> withdrawn (panel group_registry_2 2)"
  "activepanel group_registry_2 = 1" "numactive group_registry_2 = 2"
  "numpanels group_registry_2 = 3"
  by (simp_all add: group_registry_2_def mkpanel_def)

lemma group_registry_third_round:
  "panelremove_round 0 10 True 2 1 group_registry_2 = None"
  using all_withdrawn_group_registry_2 [of 1]
  by (simp add: panelremove_round_def Let_def group_registry_2_fields skip_withdrawn_diverges)

text \<open>
  C10. In \<open>panelremove\<close> the loop that steps the active index back does not always end
  when \<open>numactive\<close> is positive. Removing panel 0 of \<open>group_registry\<close> with \<open>destroy\<close>, the
  third round of the loop (\<open>i = 2\<close>, \<open>j = 1\<close>) finds two panels counted, both slots below
  \<open>numpanels\<close> holding the withdrawn panel, \<open>numactive\<close> at 1 for the panel of slot 3 that
  is not withdrawn, and steps between the slots 0 and 1 for ever.
\<close>

theorem panelremove_adjustment_diverges:
  "panelremove_loop 0 10 True 2 0 0 (group_registry\<lparr>activecontent := 0\<rparr>) =
     Some (Inr (1, group_registry_2)) \<and>
   \<not> withdrawn (panel group_registry_2 3) \<and>
   0 < numactive (group_registry_2\<lparr>numactive := 1, numpanels := 2\<rparr>) \<and>
   skip_withdrawn (group_registry_2\<lparr>numactive := 1, numpanels := 2\<rparr>) (- 1) = None \<and>
   panelremove_round 0 10 True 2 1 group_registry_2 = None"
proof -
  have "\<not> withdrawn (panel group_registry_2 3)"
    "0 < numactive (group_registry_2\<lparr>numactive := 1, numpanels := 2\<rparr>)"
    by (simp_all add: group_registry_2_def mkpanel_def)
  with group_registry_two_rounds group_registry_2_skip group_registry_third_round
  show ?thesis by blast
qed

text \<open>
  The loop by itself ends, for a step of \<open>+1\<close> or \<open>-1\<close> and every start that is not
  negative, when a slot below \<open>numpanels\<close> holds a panel that is not withdrawn; this is
  what \<open>panelswitch\<close> relies on.
\<close>

lemma MODULEINCREASE_step:
  assumes "0 \<le> ap" "0 < n" "rel = 1 \<or> rel = - 1"
  shows "MODULEINCREASE ap n rel = Inr ((ap + rel) mod n)"
proof -
  from assms have "0 \<le> ap + n + rel" by auto
  moreover have "(ap + n + rel) mod n = (ap + rel + n) mod n" by (simp add: add.commute add.left_commute)
  ultimately show ?thesis using assms by (simp add: MODULEINCREASE_def c_rem_nonneg)
qed

lemma skip_withdrawn_reaches:
  assumes "0 \<le> activepanel r" "0 < numpanels r" "rel = 1 \<or> rel = - 1"
    and "\<forall>t<d. withdrawn (panel r (nat ((activepanel r + rel * (int t + 1)) mod int (numpanels r))))"
    and "\<not> withdrawn (panel r (nat ((activepanel r + rel * (int d + 1)) mod int (numpanels r))))"
  shows "skip_withdrawn r rel =
    Some (Inr (r\<lparr>activepanel := (activepanel r + rel * (int d + 1)) mod int (numpanels r)\<rparr>))"
  using assms
proof (induction d arbitrary: r)
  case 0
  define n where "n = int (numpanels r)"
  from 0 have n: "0 < n" by (simp add: n_def)
  have step: "MODULEINCREASE (activepanel r) n rel = Inr ((activepanel r + rel) mod n)"
    using 0 n by (intro MODULEINCREASE_step) simp_all
  have "0 \<le> (activepanel r + rel) mod n" using n by simp
  with 0 step show ?case
    by (subst skip_withdrawn.simps) (simp add: n_def not_less)
next
  case (Suc d)
  define n where "n = int (numpanels r)"
  define a1 where "a1 = (activepanel r + rel) mod n"
  define r1 where "r1 = r\<lparr>activepanel := a1\<rparr>"
  from Suc.prems have n: "0 < n" by (simp add: n_def)
  then have a1: "0 \<le> a1" by (simp add: a1_def)
  have step: "MODULEINCREASE (activepanel r) n rel = Inr a1"
    unfolding a1_def using Suc.prems n by (intro MODULEINCREASE_step) simp_all
  from Suc.prems(4) [rule_format, of 0] have wd: "withdrawn (panel r (nat a1))"
    by (simp add: a1_def n_def)
  have shift: "(a1 + rel * (int t + 1)) mod n = (activepanel r + rel * (int (Suc t) + 1)) mod n" for t
  proof -
    have "(a1 + rel * (int t + 1)) mod n = (activepanel r + rel + rel * (int t + 1)) mod n"
      unfolding a1_def by (rule mod_add_left_eq)
    also have "activepanel r + rel + rel * (int t + 1) = activepanel r + rel * (int (Suc t) + 1)"
      by (simp add: algebra_simps)
    finally show ?thesis .
  qed
  have "skip_withdrawn r1 rel =
    Some (Inr (r1\<lparr>activepanel := (activepanel r1 + rel * (int d + 1)) mod int (numpanels r1)\<rparr>))"
  proof (rule Suc.IH)
    show "0 \<le> activepanel r1" using a1 by (simp add: r1_def)
    show "0 < numpanels r1" using Suc.prems by (simp add: r1_def)
    show "rel = 1 \<or> rel = - 1" by fact
    show "\<forall>t<d. withdrawn (panel r1 (nat ((activepanel r1 + rel * (int t + 1)) mod int (numpanels r1))))"
    proof (intro allI impI)
      fix t assume "t < d"
      then have "withdrawn (panel r (nat ((activepanel r + rel * (int (Suc t) + 1)) mod n)))"
        using Suc.prems(4) [rule_format, of "Suc t"] by (simp add: n_def)
      then show "withdrawn (panel r1 (nat ((activepanel r1 + rel * (int t + 1)) mod int (numpanels r1))))"
        using shift [of t] by (simp add: r1_def n_def)
    qed
    show "\<not> withdrawn (panel r1 (nat ((activepanel r1 + rel * (int d + 1)) mod int (numpanels r1))))"
      using Suc.prems(5) shift [of d] by (simp add: r1_def n_def)
  qed
  then have "skip_withdrawn r1 rel =
    Some (Inr (r\<lparr>activepanel := (activepanel r + rel * (int (Suc d) + 1)) mod n\<rparr>))"
    using shift [of d] by (simp add: r1_def n_def)
  moreover have "skip_withdrawn r rel = skip_withdrawn r1 rel"
    using step wd a1 by (subst skip_withdrawn.simps) (simp add: r1_def n_def)
  ultimately show ?case by (simp add: n_def)
qed

lemma step_reaches_slot:
  assumes "rel = 1 \<or> rel = - 1" "0 < n" "0 \<le> m" "m < n"
  shows "\<exists>t. (ap + rel * (int t + 1)) mod n = (m::int)"
proof -
  define t where "t = nat ((rel * (m - ap) - 1) mod n)"
  from assms have t: "int t = (rel * (m - ap) - 1) mod n" by (simp add: t_def)
  have "(int t + 1) mod n = (rel * (m - ap) - 1 + 1) mod n"
    unfolding t by (rule mod_add_left_eq)
  then have "(rel * (int t + 1)) mod n = (rel * (rel * (m - ap))) mod n"
    by (metis mod_mult_right_eq add.commute diff_add_cancel add.right_neutral add_diff_cancel_left' diff_add_cancel)
  also from assms have "rel * (rel * (m - ap)) = m - ap" by auto
  finally have "(ap + rel * (int t + 1)) mod n = (ap + (m - ap)) mod n"
    by (metis mod_add_right_eq)
  with assms show ?thesis by (intro exI [of _ t]) simp
qed

lemma skip_withdrawn_terminates:
  assumes rel: "rel = 1 \<or> rel = - 1" and ap: "0 \<le> activepanel r"
    and live: "\<exists>m<numpanels r. \<not> withdrawn (panel r m)"
  shows "\<exists>r'. skip_withdrawn r rel = Some (Inr r') \<and> active_live r' \<and>
    r' = r\<lparr>activepanel := activepanel r'\<rparr>"
proof -
  define n where "n = int (numpanels r)"
  from live obtain m where m: "m < numpanels r" "\<not> withdrawn (panel r m)" by blast
  then have n: "0 < n" by (simp add: n_def)
  let ?live = "\<lambda>t. \<not> withdrawn (panel r (nat ((activepanel r + rel * (int t + 1)) mod n)))"
  from step_reaches_slot [OF rel n, of "int m" "activepanel r"] m
  obtain t where "(activepanel r + rel * (int t + 1)) mod n = int m" by (auto simp: n_def)
  with m have ex: "?live t" by simp
  define d where "d = (LEAST t. ?live t)"
  from LeastI [of ?live, OF ex] have at: "?live d" by (simp add: d_def)
  have before: "\<forall>t<d. \<not> ?live t"
    using not_less_Least [of _ ?live] by (auto simp: d_def)
  define a where "a = (activepanel r + rel * (int d + 1)) mod n"
  from n have a: "0 \<le> a" "a < n" by (simp_all add: a_def)
  have "skip_withdrawn r rel = Some (Inr (r\<lparr>activepanel := a\<rparr>))"
    unfolding a_def n_def
    using ap n rel before at by (intro skip_withdrawn_reaches) (simp_all add: n_def)
  moreover have "active_live (r\<lparr>activepanel := a\<rparr>)"
    using a at by (simp add: active_live_def a_def n_def)
  ultimately show ?thesis by (intro exI [of _ "r\<lparr>activepanel := a\<rparr>"]) simp
qed

subsection \<open>Removing a panel and its group\<close>

text \<open>
  C4. Removing panel 0 of \<open>group_registry\<close> with \<open>destroy\<close> should remove the panel and
  the panel of its group in slot 2. The call never returns: the loop of the third
  round does not end (the defect of C10).
\<close>

theorem panelremove_group_diverges:
  "panelremove group_registry 0 True = None"
proof -
  have "panelremove_loop 0 10 True 4 0 0 (group_registry\<lparr>activecontent := 0\<rparr>) =
        panelremove_loop 0 10 True 4 2 1 group_registry_2"
    using panelremove_loop_split [OF group_registry_two_rounds, of 4] by simp
  also have "\<dots> = None"
    using group_registry_third_round by (simp add: panelremove_loop.simps [of 0 10 True 4 2])
  finally have "panelremove_loop 0 10 True 4 0 0 (group_registry\<lparr>activecontent := 0\<rparr>) = None" .
  moreover have "numpanels group_registry = 4" "content (panel group_registry 0) = 10"
    "activecontent group_registry = 10"
    by (simp_all add: group_registry_def mkpanel_def)
  ultimately show ?thesis
    by (simp add: panelremove_def Let_def)
qed

subsection \<open>The counter of the panels that are not withdrawn\<close>

lemma live_between_empty [simp]: "hi \<le> lo \<Longrightarrow> live_between a lo hi = 0"
  by (simp add: live_between_def)

lemma live_between_Suc:
  "lo \<le> hi \<Longrightarrow> live_between a lo (Suc hi) = live_between a lo hi + (if withdrawn (a hi) then 0 else 1)"
  by (simp add: live_between_def)

lemma live_between_first:
  "lo < hi \<Longrightarrow> live_between a lo hi = (if withdrawn (a lo) then 0 else 1) + live_between a (Suc lo) hi"
  by (simp add: live_between_def upt_conv_Cons)

lemma live_between_cong:
  "(\<And>m. lo \<le> m \<Longrightarrow> m < hi \<Longrightarrow> withdrawn (a m) = withdrawn (b m)) \<Longrightarrow>
   live_between a lo hi = live_between b lo hi"
  unfolding live_between_def by (rule arg_cong [where f = length], rule filter_cong) auto

lemma live_between_split:
  "lo \<le> m \<Longrightarrow> m < hi \<Longrightarrow>
   live_between a lo hi =
     live_between a lo m + (if withdrawn (a m) then 0 else 1) + live_between a (Suc m) hi"
proof -
  assume "lo \<le> m" "m < hi"
  then have "[lo..<hi] = [lo..<m] @ m # [Suc m..<hi]"
    by (metis le_add_diff_inverse less_imp_le_nat upt_add_eq_append upt_conv_Cons)
  then show ?thesis by (simp add: live_between_def)
qed

lemma live_between_zero:
  "(\<And>m. lo \<le> m \<Longrightarrow> m < hi \<Longrightarrow> withdrawn (a m)) \<Longrightarrow> live_between a lo hi = 0"
  by (simp add: live_between_def)

lemma live_between_less:
  assumes "p < n" "\<not> withdrawn (a p)"
  shows "live_between a 0 p < live_between a 0 n"
  using assms by (simp add: live_between_split [of 0 p n])

lemma skip_withdrawn_activepanel_only:
  assumes "skip_withdrawn r rel = Some y"
  shows "\<forall>r'. y = Inr r' \<longrightarrow> r' = r\<lparr>activepanel := activepanel r'\<rparr>"
proof (rule skip_withdrawn.raw_induct
    [where P = "\<lambda>r rel y. \<forall>r'. y = Inr r' \<longrightarrow> r' = r\<lparr>activepanel := activepanel r'\<rparr>", OF _ assms])
  fix loop :: "registry \<Rightarrow> int \<Rightarrow> (crash + registry) option"
  fix r rel y
  assume IH: "\<And>r0 rel0 y0. loop r0 rel0 = Some y0 \<Longrightarrow>
    \<forall>r'. y0 = Inr r' \<longrightarrow> r' = r0\<lparr>activepanel := activepanel r'\<rparr>"
  assume body: "(case MODULEINCREASE (activepanel r) (int (numpanels r)) rel of
        Inl e \<Rightarrow> Some (Inl e)
      | Inr a \<Rightarrow>
          if a < 0 then Some (Inl OutOfBounds)
          else if withdrawn (panel r (nat a)) then loop (r\<lparr>activepanel := a\<rparr>) rel
          else Some (Inr (r\<lparr>activepanel := a\<rparr>))) = Some y"
  show "\<forall>r'. y = Inr r' \<longrightarrow> r' = r\<lparr>activepanel := activepanel r'\<rparr>"
  proof (intro allI impI)
    fix r' assume y: "y = Inr r'"
    show "r' = r\<lparr>activepanel := activepanel r'\<rparr>"
    proof (cases "MODULEINCREASE (activepanel r) (int (numpanels r)) rel")
      case (Inl e)
      with body y show ?thesis by simp
    next
      case (Inr a)
      show ?thesis
      proof (cases "0 \<le> a \<and> withdrawn (panel r (nat a))")
        case True
        with body Inr have "loop (r\<lparr>activepanel := a\<rparr>) rel = Some y" by simp
        from IH [OF this] y have "r' = (r\<lparr>activepanel := a\<rparr>)\<lparr>activepanel := activepanel r'\<rparr>"
          by blast
        then show ?thesis by simp
      next
        case False
        with body Inr y show ?thesis by (auto split: if_splits)
      qed
    qed
  qed
qed

lemma skip_withdrawn_same:
  "skip_withdrawn r rel = Some (Inr r') \<Longrightarrow> r' = r\<lparr>activepanel := activepanel r'\<rparr>"
  using skip_withdrawn_activepanel_only by blast


lemma keep_slot_fields:
  "numpanels (keep_slot i j r) = numpanels r" "numactive (keep_slot i j r) = numactive r"
  "panel (keep_slot i j r) = (panel r)(j := panel r i)"
  by (auto simp: keep_slot_def)

lemma keep_slot_live:
  assumes "j \<le> i" "i < n"
  shows "live_between (panel (keep_slot i j r)) 0 (Suc j) = live_between (panel r) 0 j + (if withdrawn (panel r i) then 0 else 1)"
    and "live_between (panel (keep_slot i j r)) (Suc i) n = live_between (panel r) (Suc i) n"
proof -
  have "live_between (panel (keep_slot i j r)) 0 j = live_between (panel r) 0 j"
    by (rule live_between_cong) (simp add: keep_slot_fields)
  then show "live_between (panel (keep_slot i j r)) 0 (Suc j) = live_between (panel r) 0 j + (if withdrawn (panel r i) then 0 else 1)"
    by (simp add: live_between_Suc keep_slot_fields)
  show "live_between (panel (keep_slot i j r)) (Suc i) n = live_between (panel r) (Suc i) n"
    using assms by (intro live_between_cong) (simp add: keep_slot_fields)
qed

lemma remove_inv_keep:
  assumes "remove_inv n i j r" "i < n"
  shows "remove_inv n (Suc i) (Suc j) (keep_slot i j r)"
proof -
  from assms have ji: "j \<le> i" by (simp add: remove_inv_def)
  from assms have "live_between (panel r) i n = (if withdrawn (panel r i) then 0 else 1) + live_between (panel r) (Suc i) n"
    by (simp add: live_between_first)
  with assms keep_slot_live [OF ji \<open>i < n\<close>, of r] show ?thesis
    by (simp add: remove_inv_def keep_slot_fields)
qed

lemma panelremove_round_inv:
  assumes round: "panelremove_round pn c d i j r = Some (Inr (j', r'))"
    and inv: "remove_inv n i j r" and "i < n"
  shows "remove_inv n (Suc i) j' r'"
proof (cases "int i = pn \<or> leader (panel r i) = c")
  case False
  with round have "j' = Suc j" "r' = keep_slot i j r"
    by (auto simp: panelremove_round_def)
  with remove_inv_keep [OF inv \<open>i < n\<close>] show ?thesis by simp
next
  case True
  define l :: int where "l = (if withdrawn (panel r i) then 0 else 1)"
  define r1 where "r1 = (if \<not> withdrawn (panel r i) then r\<lparr>numactive := numactive r - 1\<rparr> else r)"
  define r2 where "r2 = (if d then r1\<lparr>numpanels := numpanels r1 - 1\<rparr>
                    else if \<not> withdrawn (panel r1 i)
                    then r1\<lparr>panel := (panel r1)(i := (panel r1 i)\<lparr>withdrawn := True\<rparr>)\<rparr>
                    else r1)"
  from inv \<open>i < n\<close> have ji: "j \<le> i" and np: "numpanels r + i = n + j"
    and na: "numactive r = int (live_between (panel r) 0 j) + int (live_between (panel r) i n)"
    by (simp_all add: remove_inv_def)
  have first: "int (live_between (panel r) i n) = l + int (live_between (panel r) (Suc i) n)"
    using \<open>i < n\<close> by (simp add: live_between_first l_def)
  have r1: "panel r1 = panel r" "numpanels r1 = numpanels r" "numactive r1 = numactive r - l"
    by (simp_all add: r1_def l_def)
  define s where "s = (if activepanel r2 = int j \<and> numactive r2 > 0
                       then skip_withdrawn r2 (- 1) else Some (Inr r2))"
  have "panelremove_round pn c d i j r =
        (case s of
           None \<Rightarrow> None
         | Some (Inl e) \<Rightarrow> Some (Inl e)
         | Some (Inr reg3) \<Rightarrow>
             if d
             then Some (Inr (j, if activepanel reg3 > int j
                                then reg3\<lparr>activepanel := activepanel reg3 - 1\<rparr> else reg3))
             else Some (Inr (j + 1, keep_slot i j reg3)))"
    unfolding panelremove_round_def Let_def s_def r2_def r1_def using True by (simp only: if_True)
  with round obtain r3 where s3: "s = Some (Inr r3)"
    and res: "(j', r') = (if d then (j, if activepanel r3 > int j
                                then r3\<lparr>activepanel := activepanel r3 - 1\<rparr> else r3)
                          else (Suc j, keep_slot i j r3))"
    by (cases s) (auto split: sum.splits if_splits)
  have "r3 = r2\<lparr>activepanel := activepanel r3\<rparr>"
  proof (cases "activepanel r2 = int j \<and> numactive r2 > 0")
    case True
    with s3 have "skip_withdrawn r2 (- 1) = Some (Inr r3)" by (simp add: s_def)
    then show ?thesis by (rule skip_withdrawn_same)
  next
    case False
    with s3 show ?thesis by (simp add: s_def)
  qed
  then have r3: "panel r3 = panel r2" "numpanels r3 = numpanels r2" "numactive r3 = numactive r2"
    by (metis registry.select_convs registry.surjective registry.update_convs)+
  show ?thesis
  proof (cases d)
    case True
    with res have j': "j' = j" and "panel r' = panel r3" "numpanels r' = numpanels r3" "numactive r' = numactive r3"
      by (auto split: if_splits)
    with r3 True have "panel r' = panel r" "numpanels r' = numpanels r - 1" "numactive r' = numactive r - l"
      by (simp_all add: r2_def r1)
    with j' ji np na first \<open>i < n\<close> show ?thesis
      by (simp add: remove_inv_def)
  next
    case False
    with res have j': "j' = Suc j" and r': "r' = keep_slot i j r3" by simp_all
    have wd: "withdrawn (panel r2 i)" and same: "\<And>m. m \<noteq> i \<Longrightarrow> panel r2 m = panel r m"
      and r2n: "numpanels r2 = numpanels r" "numactive r2 = numactive r - l"
      using False by (simp_all add: r2_def r1 r1_def l_def)
    have "live_between (panel r2) 0 j = live_between (panel r) 0 j"
      using ji by (intro live_between_cong) (simp add: same)
    moreover have "live_between (panel r2) (Suc i) n = live_between (panel r) (Suc i) n"
      by (intro live_between_cong) (simp add: same)
    moreover note keep_slot_live [OF ji \<open>i < n\<close>, of r3]
    ultimately have "live_between (panel r') 0 (Suc j) = live_between (panel r) 0 j"
      "live_between (panel r') (Suc i) n = live_between (panel r) (Suc i) n"
      using wd by (simp_all add: r' r3)
    moreover have "numpanels r' = numpanels r" "numactive r' = numactive r - l"
      by (simp_all add: r' keep_slot_fields r3 r2n)
    ultimately show ?thesis
      using j' ji np na first \<open>i < n\<close> by (simp add: remove_inv_def)
  qed
qed


lemma panelremove_loop_inv:
  "panelremove_loop pn c d n i j r = Some (Inr (j', r')) \<Longrightarrow> remove_inv n i j r \<Longrightarrow>
   remove_inv n n j' r'"
proof (induction pn c d n i j r rule: panelremove_loop.induct)
  case (1 pn c d n i j r)
  show ?case
  proof (cases "i < n")
    case True
    with "1.prems" obtain j1 r1 where
      round: "panelremove_round pn c d i j r = Some (Inr (j1, r1))" and
      rest: "panelremove_loop pn c d n (i + 1) j1 r1 = Some (Inr (j', r'))"
      by (auto simp: panelremove_loop.simps [of pn c d n i] split: option.splits sum.splits)
    from panelremove_round_inv [OF round "1.prems"(2) True]
    have "remove_inv n (i + 1) j1 r1" by simp
    from "1.IH" [OF True round refl refl rest this] show ?thesis .
  next
    case False
    with "1.prems" have "i = n" "j' = j" "r' = r"
      by (simp_all add: panelremove_loop.simps [of pn c d n i] remove_inv_def)
    with "1.prems" show ?thesis by simp
  qed
qed

lemma panelremove_numactive_ok:
  assumes "panelremove r pn d = Some (Inr (ret, r'))" "numactive_ok r"
  shows "numactive_ok r'"
proof (cases "pn < 0 \<or> pn \<ge> int (numpanels r)")
  case True
  with assms show ?thesis by (simp add: panelremove_def)
next
  case False
  define c where "c = content (panel r (nat pn))"
  define r0 where "r0 = (if c = activecontent r then r\<lparr>activecontent := 0\<rparr> else r)"
  from False assms(1) obtain j r1 where
    loop: "panelremove_loop pn c d (numpanels r0) 0 0 r0 = Some (Inr (j, r1))" and
    r': "r' = (if numactive r1 = 0 then r1\<lparr>activepanel := - 1\<rparr> else r1)"
    by (auto simp: panelremove_def Let_def c_def r0_def split: option.splits sum.splits)
  from assms(2) have "remove_inv (numpanels r0) 0 0 r0"
    by (simp add: remove_inv_def numactive_ok_def live_count_def r0_def)
  from panelremove_loop_inv [OF loop this]
  have "numactive_ok r1"
    by (simp add: remove_inv_def numactive_ok_def live_count_def)
  then show ?thesis
    by (simp add: r' numactive_ok_def live_count_def)
qed

lemma paneladd_numactive_ok:
  assumes "numactive_ok r"
  shows "numactive_ok (snd (snd (paneladd r p w wmname ld)))"
proof -
  have "live_between ((panel r)(numpanels r := x)) 0 (numpanels r) = live_between (panel r) 0 (numpanels r)" for x
    by (rule live_between_cong) simp
  with assms show ?thesis
    by (simp add: paneladd_def Let_def numactive_ok_def live_count_def live_between_Suc)
qed

lemma panelenter_numactive_ok:
  assumes "panelenter r = Inr r'" "numactive_ok r"
  shows "numactive_ok r'"
proof (cases "0 \<le> activepanel r \<and> activepanel r < int (numpanels r) \<and> withdrawn (panel r (nat (activepanel r)))")
  case False
  with assms have "panel r' = panel r \<and> numpanels r' = numpanels r \<and> numactive r' = numactive r"
    by (auto simp: panelenter_def Let_def split: if_splits)
  with assms(2) show ?thesis by (simp add: numactive_ok_def live_count_def)
next
  case True
  define a where "a = nat (activepanel r)"
  define b where "b = (panel r)(a := (panel r a)\<lparr>withdrawn := False\<rparr>)"
  from True have a: "a < numpanels r" "withdrawn (panel r a)" by (simp_all add: a_def nat_less_iff)
  from True assms(1) have r': "panel r' = b" "numpanels r' = numpanels r" "numactive r' = numactive r + 1"
    by (auto simp: panelenter_def Let_def a_def b_def split: if_splits)
  have "live_between b 0 a = live_between (panel r) 0 a"
    "live_between b (Suc a) (numpanels r) = live_between (panel r) (Suc a) (numpanels r)"
    by (rule live_between_cong, simp add: b_def)+
  with a have "live_between b 0 (numpanels r) = live_between (panel r) 0 (numpanels r) + 1"
    by (simp add: live_between_split [of 0 a] b_def)
  with assms(2) show ?thesis by (simp add: numactive_ok_def live_count_def r')
qed


lemma live_between_swap_less:
  assumes "p < q" "q < n"
  shows "live_between (a(q := a p, p := a q)) 0 n = live_between a 0 n"
proof -
  let ?b = "a(q := a p, p := a q)"
  have seg: "live_between ?b 0 p = live_between a 0 p"
    "live_between ?b (Suc p) q = live_between a (Suc p) q"
    "live_between ?b (Suc q) n = live_between a (Suc q) n"
    using assms by (intro live_between_cong; simp)+
  have "live_between ?b 0 n =
        live_between ?b 0 p + (if withdrawn (?b p) then 0 else 1) +
        (live_between ?b (Suc p) q + (if withdrawn (?b q) then 0 else 1) + live_between ?b (Suc q) n)"
    using assms by (simp add: live_between_split [of 0 p n] live_between_split [of "Suc p" q n])
  moreover have "live_between a 0 n =
        live_between a 0 p + (if withdrawn (a p) then 0 else 1) +
        (live_between a (Suc p) q + (if withdrawn (a q) then 0 else 1) + live_between a (Suc q) n)"
    using assms by (simp add: live_between_split [of 0 p n] live_between_split [of "Suc p" q n])
  ultimately show ?thesis
    using assms by (simp add: seg)
qed

lemma live_between_swap:
  assumes "p < n" "q < n"
  shows "live_between (a(q := a p, p := a q)) 0 n = live_between a 0 n"
proof -
  consider "p < q" | "p = q" | "q < p" by linarith
  then show ?thesis
  proof cases
    case 1
    with assms show ?thesis by (simp add: live_between_swap_less)
  next
    case 2
    then show ?thesis by simp
  next
    case 3
    then have "a(q := a p, p := a q) = a(p := a q, q := a p)" by (simp add: fun_upd_twist)
    with 3 assms show ?thesis by (simp add: live_between_swap_less)
  qed
qed

lemma panelswap_numactive_ok:
  assumes "panelswap r pn1 pn2 = Inr (ret, r')" "numactive_ok r"
  shows "numactive_ok r'"
proof (cases "r' = r")
  case True
  with assms show ?thesis by simp
next
  case False
  with assms(1) have rng: "0 \<le> pn1" "pn1 < int (numpanels r)" "0 \<le> pn2" "pn2 < int (numpanels r)"
    and r': "r' = r\<lparr>panel := (panel r)(nat pn2 := panel r (nat pn1), nat pn1 := panel r (nat pn2))\<rparr>"
    by (auto simp: panelswap_def split: if_splits)
  from rng have "nat pn1 < numpanels r" "nat pn2 < numpanels r" by (simp_all add: nat_less_iff)
  from live_between_swap [OF this, of "panel r"] assms(2) show ?thesis
    by (simp add: r' numactive_ok_def live_count_def)
qed

lemma panelswitch_numactive_ok:
  assumes "panelswitch r rel = Some (Inr (ret, r'))" "numactive_ok r"
  shows "numactive_ok r'"
proof (cases "activepanel r = - 1")
  case True
  with assms show ?thesis by (simp add: panelswitch_def)
next
  case False
  with assms(1) obtain r1 where skip: "skip_withdrawn r rel = Some (Inr r1)"
    and enter: "panelenter r1 = Inr r'"
    by (auto simp: panelswitch_def panelleave_def split: option.splits sum.splits)
  from skip_withdrawn_same [OF skip] have "panel r1 = panel r" "numpanels r1 = numpanels r" "numactive r1 = numactive r"
    by (metis registry.select_convs registry.surjective registry.update_convs)+
  with assms(2) have "numactive_ok r1" by (simp add: numactive_ok_def live_count_def)
  with enter show ?thesis by (rule panelenter_numactive_ok)
qed

lemma reachable_numactive_ok: "reachable r \<Longrightarrow> numactive_ok r"
proof (induction rule: reachable.induct)
  case (start u)
  show ?case by (simp add: numactive_ok_def live_count_def registry_init_def)
next
  case (add r p w wmname ld ret out r')
  from paneladd_numactive_ok [OF add.IH, of p w wmname ld] add.hyps show ?case by simp
next
  case (remove r pn destroy ret r')
  then show ?case using panelremove_numactive_ok by blast
next
  case (enter r r')
  then show ?case using panelenter_numactive_ok by blast
next
  case (switch r rel ret r')
  then show ?case using panelswitch_numactive_ok by blast
next
  case (swap r pn1 pn2 ret r')
  then show ?case using panelswap_numactive_ok by blast
next
  case (activate r a)
  then show ?case by (simp add: numactive_ok_def live_count_def)
next
  case (activewin r w)
  then show ?case by (simp add: numactive_ok_def live_count_def)
next
  case (rename r i wmname)
  have "live_between ((panel r)(i := (panel r i)\<lparr>name := panelname wmname\<rparr>)) 0 (numpanels r) =
        live_between (panel r) 0 (numpanels r)"
    by (rule live_between_cong) simp
  with rename show ?case by (simp add: numactive_ok_def live_count_def)
qed

text \<open>
  What one round of the loop of \<open>panelremove\<close> does to a slot that is removed and to
  one that is kept.
\<close>

lemma matched_slot_fields:
  "numactive (matched_slot d i r) = numactive r - (if withdrawn (panel r i) then 0 else 1)"
  "numpanels (matched_slot d i r) = (if d then numpanels r - 1 else numpanels r)"
  "activepanel (matched_slot d i r) = activepanel r"
  "panel (matched_slot d i r) =
     (if d then panel r else (panel r)(i := (panel r i)\<lparr>withdrawn := True\<rparr>))"
  by (auto simp: matched_slot_def Let_def)

lemma panelremove_round_match:
  assumes round: "panelremove_round pn c d i j r = Some (Inr (j', r'))"
    and hit: "int i = pn \<or> leader (panel r i) = c"
  obtains r3 where
    "if activepanel (matched_slot d i r) = int j \<and> numactive (matched_slot d i r) > 0
     then skip_withdrawn (matched_slot d i r) (- 1) = Some (Inr r3)
     else r3 = matched_slot d i r"
    "j' = (if d then j else Suc j)"
    "r' = (if d then (if activepanel r3 > int j
                      then r3\<lparr>activepanel := activepanel r3 - 1\<rparr> else r3)
           else keep_slot i j r3)"
proof -
  define s where "s = (if activepanel (matched_slot d i r) = int j \<and> numactive (matched_slot d i r) > 0
                       then skip_withdrawn (matched_slot d i r) (- 1)
                       else Some (Inr (matched_slot d i r)))"
  have "panelremove_round pn c d i j r =
        (case s of
           None \<Rightarrow> None
         | Some (Inl e) \<Rightarrow> Some (Inl e)
         | Some (Inr reg3) \<Rightarrow>
             if d
             then Some (Inr (j, if activepanel reg3 > int j
                                then reg3\<lparr>activepanel := activepanel reg3 - 1\<rparr> else reg3))
             else Some (Inr (j + 1, keep_slot i j reg3)))"
    unfolding panelremove_round_def Let_def s_def matched_slot_def using hit by (simp only: if_True)
  with round obtain r3 where s3: "s = Some (Inr r3)"
    and res: "(j', r') = (if d then (j, if activepanel r3 > int j
                                then r3\<lparr>activepanel := activepanel r3 - 1\<rparr> else r3)
                          else (Suc j, keep_slot i j r3))"
    by (cases s) (auto split: sum.splits if_splits)
  from s3 have "if activepanel (matched_slot d i r) = int j \<and> numactive (matched_slot d i r) > 0
     then skip_withdrawn (matched_slot d i r) (- 1) = Some (Inr r3)
     else r3 = matched_slot d i r"
    by (cases "activepanel (matched_slot d i r) = int j \<and> numactive (matched_slot d i r) > 0")
       (auto simp: s_def)
  moreover from res have "j' = (if d then j else Suc j)"
    "r' = (if d then (if activepanel r3 > int j
                      then r3\<lparr>activepanel := activepanel r3 - 1\<rparr> else r3)
           else keep_slot i j r3)"
    by (simp_all split: if_splits)
  ultimately show ?thesis by (rule that)
qed

lemma panelremove_round_miss:
  assumes "panelremove_round pn c d i j r = Some (Inr (j', r'))"
    and "\<not> (int i = pn \<or> leader (panel r i) = c)"
  shows "j' = Suc j" "r' = keep_slot i j r"
  using assms by (auto simp: panelremove_round_def)

lemma skip_withdrawn_fields:
  assumes "skip_withdrawn r rel = Some (Inr r')"
  shows "panel r' = panel r" "numpanels r' = numpanels r" "numactive r' = numactive r"
  using skip_withdrawn_same [OF assms]
  by (metis registry.select_convs registry.surjective registry.update_convs)+

text \<open>
  \<open>panelremove\<close> decrements \<open>numactive\<close> once for each panel it removes that is not
  withdrawn.
\<close>

lemma removed_live_Suc:
  "removed_live pn c a (Suc i) =
     removed_live pn c a i + (if (int i = pn \<or> leader (a i) = c) \<and> \<not> withdrawn (a i) then 1 else 0)"
  by (simp add: removed_live_def)

lemma panelremove_round_count_inv:
  assumes round: "panelremove_round pn c d i j r = Some (Inr (j', r'))"
    and inv: "count_inv pn c a na i j r"
  shows "count_inv pn c a na (Suc i) j' r'"
proof (cases "int i = pn \<or> leader (panel r i) = c")
  case False
  from panelremove_round_miss [OF round False] inv False show ?thesis
    by (auto simp: count_inv_def keep_slot_fields removed_live_Suc)
next
  case True
  from inv have ji: "j \<le> i" and same: "\<forall>m\<ge>i. panel r m = a m"
    and na: "numactive r = na - int (removed_live pn c a i)"
    by (simp_all add: count_inv_def)
  from same have ai: "panel r i = a i" by simp
  from panelremove_round_match [OF round True] obtain r3 where
    r3: "if activepanel (matched_slot d i r) = int j \<and> numactive (matched_slot d i r) > 0
     then skip_withdrawn (matched_slot d i r) (- 1) = Some (Inr r3)
     else r3 = matched_slot d i r"
    and j': "j' = (if d then j else Suc j)"
    and r': "r' = (if d then (if activepanel r3 > int j
                      then r3\<lparr>activepanel := activepanel r3 - 1\<rparr> else r3)
           else keep_slot i j r3)" .
  from r3 have f3: "panel r3 = panel (matched_slot d i r)" "numactive r3 = numactive (matched_slot d i r)"
    by (auto simp: skip_withdrawn_fields split: if_splits)
  have "numactive r' = numactive r - (if withdrawn (panel r i) then 0 else 1)"
    by (simp add: r' f3 matched_slot_fields keep_slot_fields)
  moreover have "\<forall>m\<ge>Suc i. panel r' m = a m"
    using same ji by (simp add: r' f3 matched_slot_fields keep_slot_fields)
  ultimately show ?thesis
    using True ji na ai by (auto simp: count_inv_def j' removed_live_Suc)
qed

lemma panelremove_loop_count_inv:
  "panelremove_loop pn c d n i j r = Some (Inr (j', r')) \<Longrightarrow> count_inv pn c a na i j r \<Longrightarrow>
   i \<le> n \<Longrightarrow> count_inv pn c a na n j' r'"
proof (induction pn c d n i j r rule: panelremove_loop.induct)
  case (1 pn c d n i j r)
  show ?case
  proof (cases "i < n")
    case True
    with "1.prems" obtain j1 r1 where
      round: "panelremove_round pn c d i j r = Some (Inr (j1, r1))" and
      rest: "panelremove_loop pn c d n (i + 1) j1 r1 = Some (Inr (j', r'))"
      by (auto simp: panelremove_loop.simps [of pn c d n i] split: option.splits sum.splits)
    from panelremove_round_count_inv [OF round "1.prems"(2)]
    have "count_inv pn c a na (i + 1) j1 r1" by simp
    from "1.IH" [OF True round refl refl rest this] True show ?thesis by simp
  next
    case False
    with "1.prems" have "i = n" "j' = j" "r' = r"
      by (simp_all add: panelremove_loop.simps [of pn c d n i])
    with "1.prems" show ?thesis by simp
  qed
qed

lemma panelremove_numactive:
  assumes "panelremove r pn d = Some (Inr (ret, r'))" "0 \<le> pn" "pn < int (numpanels r)"
  shows "numactive r' =
    numactive r - int (removed_live pn (content (panel r (nat pn))) (panel r) (numpanels r))"
proof -
  define c where "c = content (panel r (nat pn))"
  define r0 where "r0 = (if c = activecontent r then r\<lparr>activecontent := 0\<rparr> else r)"
  from assms obtain j r1 where
    loop: "panelremove_loop pn c d (numpanels r0) 0 0 r0 = Some (Inr (j, r1))" and
    r': "r' = (if numactive r1 = 0 then r1\<lparr>activepanel := - 1\<rparr> else r1)"
    by (auto simp: panelremove_def Let_def c_def r0_def split: option.splits sum.splits)
  have "count_inv pn c (panel r) (numactive r) 0 0 r0"
    by (simp add: count_inv_def r0_def removed_live_def)
  from panelremove_loop_count_inv [OF loop this]
  have "numactive r1 = numactive r - int (removed_live pn c (panel r) (numpanels r))"
    by (simp add: count_inv_def r0_def)
  then show ?thesis by (simp add: r' c_def)
qed

text \<open>What \<open>panelfind\<close> returns, and what \<open>paneladd\<close> and \<open>panelenter\<close> do.\<close>

lemma panelfind_from_range:
  "panelfind_from i r p m = e \<Longrightarrow> e = - 1 \<or> (int i \<le> e \<and> e < int (numpanels r))"
proof (induction i r p m rule: panelfind_from.induct)
  case (1 i reg p panelorcontent)
  show ?case
  proof (cases "i < numpanels reg")
    case False
    with "1.prems" show ?thesis by (simp add: panelfind_from.simps [of i])
  next
    case True
    show ?thesis
    proof (cases "(odd panelorcontent \<and> p = panelwin (panel reg i)) \<or>
        (odd (panelorcontent div 2) \<and> p = content (panel reg i))")
      case hit: True
      with True "1.prems" have "e = int i" by (auto simp: panelfind_from.simps [of i])
      with True show ?thesis by simp
    next
      case miss: False
      with True "1.prems" have "panelfind_from (i + 1) reg p panelorcontent = e"
        by (auto simp: panelfind_from.simps [of i])
      from "1.IH" [OF True _ _ this] miss show ?thesis by auto
    qed
  qed
qed

lemma panelfind_range: "panelfind r p m = - 1 \<or> (0 \<le> panelfind r p m \<and> panelfind r p m < int (numpanels r))"
  using panelfind_from_range [of 0 r p m] by (auto simp: panelfind_def)

lemma paneladd_creates:
  assumes "numpanels r < MAXPANELS" "panelfind r w (PANEL + CONTENT) = - 1"
  shows "paneladd r p w wmname ld =
    (int (numpanels r), [Panelprint ''CREATE'' (numpanels r)],
     r\<lparr>panel := (panel r)
          (numpanels r := \<lparr>panelwin = p, content = w, name = panelname wmname, leader = ld,
                           withdrawn = False\<rparr>),
       numactive := numactive r + 1, numpanels := numpanels r + 1\<rparr>)"
  using assms by (simp add: paneladd_def)

lemma paneladd_unchanged:
  "numpanels r \<ge> MAXPANELS \<or> panelfind r w (PANEL + CONTENT) \<noteq> - 1 \<Longrightarrow>
   snd (snd (paneladd r p w wmname ld)) = r"
  by (auto simp: paneladd_def Let_def)

lemma panelenter_restores:
  assumes "0 \<le> activepanel r" "activepanel r < int (numpanels r)"
  shows "\<exists>r'. panelenter r = Inr r' \<and> \<not> withdrawn (panel r' (nat (activepanel r))) \<and>
    activepanel r' = activepanel r \<and> numpanels r' = numpanels r \<and>
    activecontent r' = content (panel r (nat (activepanel r))) \<and>
    (\<forall>m. m \<noteq> nat (activepanel r) \<longrightarrow> panel r' m = panel r m) \<and>
    numactive r' = numactive r + (if withdrawn (panel r (nat (activepanel r))) then 1 else 0)"
  using assms by (auto simp: panelenter_def Let_def)

text \<open>The registry \<open>withdrawn_active\<close> and what the three functions do there.\<close>

lemma upt2: "[0..<2] = [0, Suc 0]" by (simp add: numeral_2_eq_2)

lemma one_added_add:
  "paneladd (registry_init False) 110 10 (Some ''w'') 0 =
     (0, [Panelprint ''CREATE'' 0],
      \<lparr>panel = (panel (registry_init False))(0 := mkpanel 10 0 False),
       numpanels = 1, numactive = 1, activepanel = - 1, activecontent = 0,
       unmaponleave = False, activewindow = 0\<rparr>)"
  by (simp add: paneladd_def panelfind_def panelfind_from.simps [of 0]
      registry_init_def MAXPANELS_def Let_def panelname_def mkpanel_def)

lemma two_added_add:
  "paneladd \<lparr>panel = (panel (registry_init False))(0 := mkpanel 10 0 False),
       numpanels = 1, numactive = 1, activepanel = - 1, activecontent = 0,
       unmaponleave = False, activewindow = 0\<rparr> 111 11 (Some ''w'') 0 =
     (1, [Panelprint ''CREATE'' 1], two_added)"
  by (simp add: paneladd_def panelfind_def panelfind_from.simps [of 0]
      panelfind_from.simps [of "Suc 0"] PANEL_def CONTENT_def two_added_def
      registry_init_def MAXPANELS_def Let_def panelname_def mkpanel_def fun_upd_twist)

lemma two_added_withdraw:
  "panelremove two_added 1 False = Some (Inr (0, withdrawn_active\<lparr>activepanel := - 1\<rparr>))"
  by (simp add: panelremove_def panelremove_loop.simps [of _ _ _ _ 0]
      panelremove_loop.simps [of _ _ _ _ "Suc 0"] panelremove_loop.simps [of _ _ _ _ "Suc (Suc 0)"]
      panelremove_round_def keep_slot_def Let_def two_added_def withdrawn_active_def
      registry_init_def mkpanel_def fun_eq_iff)

lemma withdrawn_active_reachable: "reachable withdrawn_active"
proof -
  have "reachable two_added"
    by (rule reachable.add [OF reachable.add [OF reachable.start one_added_add] two_added_add])
  from reachable.remove [OF this two_added_withdraw]
  have "reachable (withdrawn_active\<lparr>activepanel := - 1\<rparr>)" .
  from reachable.activate [OF this, of 1] show ?thesis by (simp add: withdrawn_active_def)
qed

lemma withdrawn_active_remove:
  "panelremove withdrawn_active 0 True =
     Some (Inr (0, withdrawn_active
       \<lparr>panel := (panel withdrawn_active)(0 := mkpanel 11 0 True), numpanels := 1,
        numactive := 0, activepanel := - 1\<rparr>))"
  by (simp add: panelremove_def panelremove_loop.simps [of _ _ _ _ 0]
      panelremove_loop.simps [of _ _ _ _ "Suc 0"] panelremove_loop.simps [of _ _ _ _ "Suc (Suc 0)"]
      panelremove_round_def keep_slot_def Let_def withdrawn_active_def
      registry_init_def mkpanel_def fun_eq_iff)

text \<open>
  C9. In every registry the main loop can reach, \<open>numactive\<close> is the number of
  registered panels that are not withdrawn, and \<open>paneladd\<close>, \<open>panelremove\<close> (when it
  returns) and \<open>panelenter\<close> each keep it so. \<open>paneladd\<close> for a window that has no panel
  yet, in a registry that is not full, puts a panel that is not withdrawn into the slot
  \<open>numpanels\<close>, leaves the other slots as they are and increments \<open>numpanels\<close> and
  \<open>numactive\<close>; otherwise it changes nothing. \<open>panelremove\<close> for a registered panel,
  when it returns, has decremented \<open>numactive\<close> once for each panel that it destroys or
  withdraws and that was not withdrawn. \<open>panelenter\<close> with the active index that of a
  registered panel clears the flag \<open>withdrawn\<close> of that panel, leaves the other panels as
  they are and increments \<open>numactive\<close> exactly when the flag was set.
\<close>

theorem numactive_counts_live:
  "(reachable r \<longrightarrow> numactive_ok r) \<and>
   (numactive_ok r \<longrightarrow>
      numactive_ok (snd (snd (paneladd r p w wmname ld))) \<and>
      (\<forall>ret r'. panelremove r pn destroy = Some (Inr (ret, r')) \<longrightarrow> numactive_ok r') \<and>
      (\<forall>r'. panelenter r = Inr r' \<longrightarrow> numactive_ok r')) \<and>
   (numpanels r < MAXPANELS \<and> panelfind r w (PANEL + CONTENT) = - 1 \<longrightarrow>
      (\<exists>r'. paneladd r p w wmname ld =
           (int (numpanels r), [Panelprint ''CREATE'' (numpanels r)], r') \<and>
         numpanels r' = numpanels r + 1 \<and>
         content (panel r' (numpanels r)) = w \<and> \<not> withdrawn (panel r' (numpanels r)) \<and>
         (\<forall>m. m \<noteq> numpanels r \<longrightarrow> panel r' m = panel r m) \<and>
         numactive r' = numactive r + 1)) \<and>
   (numpanels r \<ge> MAXPANELS \<or> panelfind r w (PANEL + CONTENT) \<noteq> - 1 \<longrightarrow>
      snd (snd (paneladd r p w wmname ld)) = r) \<and>
   (0 \<le> pn \<and> pn < int (numpanels r) \<longrightarrow>
      (\<forall>ret r'. panelremove r pn destroy = Some (Inr (ret, r')) \<longrightarrow>
         numactive r' =
           numactive r -
           int (removed_live pn (content (panel r (nat pn))) (panel r) (numpanels r)))) \<and>
   (0 \<le> activepanel r \<and> activepanel r < int (numpanels r) \<longrightarrow>
      (\<exists>r'. panelenter r = Inr r' \<and> \<not> withdrawn (panel r' (nat (activepanel r))) \<and>
         numpanels r' = numpanels r \<and>
         (\<forall>m. m \<noteq> nat (activepanel r) \<longrightarrow> panel r' m = panel r m) \<and>
         numactive r' =
           numactive r + (if withdrawn (panel r (nat (activepanel r))) then 1 else 0)))"
proof (intro conjI impI allI)
  assume "reachable r"
  then show "numactive_ok r" by (rule reachable_numactive_ok)
next
  assume "numactive_ok r"
  then show "numactive_ok (snd (snd (paneladd r p w wmname ld)))" by (rule paneladd_numactive_ok)
next
  fix ret r'
  assume "numactive_ok r" "panelremove r pn destroy = Some (Inr (ret, r'))"
  then show "numactive_ok r'" using panelremove_numactive_ok by blast
next
  fix r'
  assume "numactive_ok r" "panelenter r = Inr r'"
  then show "numactive_ok r'" using panelenter_numactive_ok by blast
next
  assume "numpanels r < MAXPANELS \<and> panelfind r w (PANEL + CONTENT) = - 1"
  then have "paneladd r p w wmname ld =
    (int (numpanels r), [Panelprint ''CREATE'' (numpanels r)],
     r\<lparr>panel := (panel r)
          (numpanels r := \<lparr>panelwin = p, content = w, name = panelname wmname, leader = ld,
                           withdrawn = False\<rparr>),
       numactive := numactive r + 1, numpanels := numpanels r + 1\<rparr>)"
    by (simp add: paneladd_creates)
  then show "\<exists>r'. paneladd r p w wmname ld =
           (int (numpanels r), [Panelprint ''CREATE'' (numpanels r)], r') \<and>
         numpanels r' = numpanels r + 1 \<and>
         content (panel r' (numpanels r)) = w \<and> \<not> withdrawn (panel r' (numpanels r)) \<and>
         (\<forall>m. m \<noteq> numpanels r \<longrightarrow> panel r' m = panel r m) \<and>
         numactive r' = numactive r + 1"
    by simp
next
  assume "numpanels r \<ge> MAXPANELS \<or> panelfind r w (PANEL + CONTENT) \<noteq> - 1"
  then show "snd (snd (paneladd r p w wmname ld)) = r" by (rule paneladd_unchanged)
next
  fix ret r'
  assume "0 \<le> pn \<and> pn < int (numpanels r)" "panelremove r pn destroy = Some (Inr (ret, r'))"
  then show "numactive r' =
           numactive r -
           int (removed_live pn (content (panel r (nat pn))) (panel r) (numpanels r))"
    using panelremove_numactive by blast
next
  assume "0 \<le> activepanel r \<and> activepanel r < int (numpanels r)"
  with panelenter_restores [of r]
  show "\<exists>r'. panelenter r = Inr r' \<and> \<not> withdrawn (panel r' (nat (activepanel r))) \<and>
         numpanels r' = numpanels r \<and>
         (\<forall>m. m \<noteq> nat (activepanel r) \<longrightarrow> panel r' m = panel r m) \<and>
         numactive r' =
           numactive r + (if withdrawn (panel r (nat (activepanel r))) then 1 else 0)"
    by blast
qed

theorem numactive_counts_live_witness:
  "reachable withdrawn_active \<and> numactive_ok withdrawn_active \<and>
   numpanels withdrawn_active = 2 \<and> numactive withdrawn_active = 1 \<and>
   numpanels withdrawn_active < MAXPANELS \<and>
   panelfind withdrawn_active 12 (PANEL + CONTENT) = - 1 \<and>
   (\<exists>r'. paneladd withdrawn_active 112 12 (Some ''w'') 0 = (2, [Panelprint ''CREATE'' 2], r') \<and>
      numpanels r' = 3 \<and> content (panel r' 2) = 12 \<and> \<not> withdrawn (panel r' 2) \<and>
      numactive r' = 2 \<and> numactive_ok r') \<and>
   removed_live 0 10 (panel withdrawn_active) 2 = 1 \<and>
   (\<exists>r'. panelremove withdrawn_active 0 True = Some (Inr (0, r')) \<and> numactive r' = 0 \<and>
      numactive_ok r') \<and>
   withdrawn (panel withdrawn_active 1) \<and>
   (\<exists>r'. panelenter withdrawn_active = Inr r' \<and> \<not> withdrawn (panel r' 1) \<and>
      numactive r' = 2 \<and> numactive_ok r')"
proof -
  have f: "numpanels withdrawn_active = 2" "numactive withdrawn_active = 1"
    "activepanel withdrawn_active = 1" "withdrawn (panel withdrawn_active 1)"
    "content (panel withdrawn_active 0) = 10"
    by (simp_all add: withdrawn_active_def mkpanel_def)
  have full: "numpanels withdrawn_active < MAXPANELS" by (simp add: f MAXPANELS_def)
  have find: "panelfind withdrawn_active 12 (PANEL + CONTENT) = - 1"
    by (simp add: panelfind_def panelfind_from.simps [of 0] panelfind_from.simps [of "Suc 0"]
        panelfind_from.simps [of "Suc (Suc 0)"] PANEL_def CONTENT_def withdrawn_active_def mkpanel_def)
  have gone: "removed_live 0 10 (panel withdrawn_active) 2 = 1"
    by (simp add: removed_live_def withdrawn_active_def mkpanel_def upt2)
  note all = numactive_counts_live [of withdrawn_active 112 12 "Some ''w''" 0 0 True]
  from all withdrawn_active_reachable have ok: "numactive_ok withdrawn_active" by blast
  from all ok have ok_add: "numactive_ok (snd (snd (paneladd withdrawn_active 112 12 (Some ''w'') 0)))"
    and ok_remove: "\<forall>ret r'. panelremove withdrawn_active 0 True = Some (Inr (ret, r')) \<longrightarrow>
      numactive_ok r'"
    and ok_enter: "\<forall>r'. panelenter withdrawn_active = Inr r' \<longrightarrow> numactive_ok r'"
    by blast+
  from all full find have "\<exists>r'. paneladd withdrawn_active 112 12 (Some ''w'') 0 =
           (int (numpanels withdrawn_active), [Panelprint ''CREATE'' (numpanels withdrawn_active)], r') \<and>
         numpanels r' = numpanels withdrawn_active + 1 \<and>
         content (panel r' (numpanels withdrawn_active)) = 12 \<and>
         \<not> withdrawn (panel r' (numpanels withdrawn_active)) \<and>
         (\<forall>m. m \<noteq> numpanels withdrawn_active \<longrightarrow> panel r' m = panel withdrawn_active m) \<and>
         numactive r' = numactive withdrawn_active + 1"
    by blast
  with ok_add have a: "\<exists>r'. paneladd withdrawn_active 112 12 (Some ''w'') 0 =
      (2, [Panelprint ''CREATE'' 2], r') \<and>
      numpanels r' = 3 \<and> content (panel r' 2) = 12 \<and> \<not> withdrawn (panel r' 2) \<and>
      numactive r' = 2 \<and> numactive_ok r'"
    by (auto simp: f)
  from all have "\<forall>ret r'. panelremove withdrawn_active 0 True = Some (Inr (ret, r')) \<longrightarrow>
         numactive r' =
           numactive withdrawn_active -
           int (removed_live 0 (content (panel withdrawn_active (nat 0))) (panel withdrawn_active)
             (numpanels withdrawn_active))"
    by (simp add: f)
  with withdrawn_active_remove ok_remove
  have b: "\<exists>r'. panelremove withdrawn_active 0 True = Some (Inr (0, r')) \<and> numactive r' = 0 \<and>
      numactive_ok r'"
    by (auto simp: f gone)
  from all have "\<exists>r'. panelenter withdrawn_active = Inr r' \<and>
         \<not> withdrawn (panel r' (nat (activepanel withdrawn_active))) \<and>
         numpanels r' = numpanels withdrawn_active \<and>
         (\<forall>m. m \<noteq> nat (activepanel withdrawn_active) \<longrightarrow> panel r' m = panel withdrawn_active m) \<and>
         numactive r' =
           numactive withdrawn_active +
           (if withdrawn (panel withdrawn_active (nat (activepanel withdrawn_active))) then 1 else 0)"
    by (simp add: f)
  with ok_enter f(4) have c: "\<exists>r'. panelenter withdrawn_active = Inr r' \<and> \<not> withdrawn (panel r' 1) \<and>
      numactive r' = 2 \<and> numactive_ok r'"
    by (auto simp: f)
  from a b c ok f full find gone withdrawn_active_reachable show ?thesis by simp
qed

subsection \<open>The panels left by a removal that returns\<close>

text \<open>
  When \<open>panelremove\<close> with \<open>destroy\<close> returns, the registered panels are those of
  before without panel \<open>pn\<close> and the panels whose leader is its content, in their
  order.
\<close>

lemma panelremove_round_destroy_inv:
  assumes round: "panelremove_round pn c True i j r = Some (Inr (j', r'))"
    and inv: "destroy_inv pn c a n i j r" and "i < n"
  shows "destroy_inv pn c a n (Suc i) j' r'"
proof (cases "int i = pn \<or> leader (panel r i) = c")
  case False
  with round have res: "j' = Suc j" "r' = keep_slot i j r"
    by (auto simp: panelremove_round_def)
  from inv have ji: "j \<le> i" and same: "\<forall>m\<ge>i. panel r m = a m"
    and pre: "map (panel r) [0..<j] = map a (filter (kept pn c a) [0..<i])"
    by (simp_all add: destroy_inv_def)
  from False same have k: "kept pn c a i" by (simp add: kept_def)
  have "map (panel r') [0..<j] = map (panel r) [0..<j]"
    by (simp add: res keep_slot_fields)
  moreover have "panel r' j = a i" using same by (simp add: res keep_slot_fields)
  ultimately have "map (panel r') [0..<Suc j] = map a (filter (kept pn c a) [0..<Suc i])"
    using pre k by simp
  moreover have "\<forall>m\<ge>Suc i. panel r' m = a m"
    using same ji by (simp add: res keep_slot_fields)
  ultimately show ?thesis
    using inv \<open>i < n\<close> by (simp add: destroy_inv_def res keep_slot_fields)
next
  case True
  define r1 where "r1 = (if \<not> withdrawn (panel r i) then r\<lparr>numactive := numactive r - 1\<rparr> else r)"
  define r2 where "r2 = r1\<lparr>numpanels := numpanels r1 - 1\<rparr>"
  define s where "s = (if activepanel r2 = int j \<and> numactive r2 > 0
                       then skip_withdrawn r2 (- 1) else Some (Inr r2))"
  have "panelremove_round pn c True i j r =
        (case s of
           None \<Rightarrow> None
         | Some (Inl e) \<Rightarrow> Some (Inl e)
         | Some (Inr reg3) \<Rightarrow>
             Some (Inr (j, if activepanel reg3 > int j
                           then reg3\<lparr>activepanel := activepanel reg3 - 1\<rparr> else reg3)))"
    unfolding panelremove_round_def Let_def s_def r2_def r1_def using True by (simp only: if_True)
  with round obtain r3 where s3: "s = Some (Inr r3)"
    and res: "j' = j" "r' = (if activepanel r3 > int j
                                then r3\<lparr>activepanel := activepanel r3 - 1\<rparr> else r3)"
    by (cases s) (auto split: sum.splits)
  have "r3 = r2\<lparr>activepanel := activepanel r3\<rparr>"
  proof (cases "activepanel r2 = int j \<and> numactive r2 > 0")
    case True
    with s3 have "skip_withdrawn r2 (- 1) = Some (Inr r3)" by (simp add: s_def)
    then show ?thesis by (rule skip_withdrawn_same)
  next
    case False
    with s3 show ?thesis by (simp add: s_def)
  qed
  then have "panel r3 = panel r2" "numpanels r3 = numpanels r2"
    by (metis registry.select_convs registry.surjective registry.update_convs)+
  then have r': "panel r' = panel r" "numpanels r' = numpanels r - 1"
    by (simp_all add: res r2_def r1_def)
  from inv have same: "\<forall>m\<ge>i. panel r m = a m" by (simp add: destroy_inv_def)
  with True have "\<not> kept pn c a i" by (simp add: kept_def)
  moreover from inv \<open>i < n\<close> have "0 < numpanels r"
    by (simp add: destroy_inv_def)
  ultimately show ?thesis
    using inv \<open>i < n\<close> by (simp add: destroy_inv_def r' res(1))
qed

lemma panelremove_loop_destroy_inv:
  "panelremove_loop pn c True n i j r = Some (Inr (j', r')) \<Longrightarrow> destroy_inv pn c a n i j r \<Longrightarrow>
   destroy_inv pn c a n n j' r'"
proof (induction pn c True n i j r rule: panelremove_loop.induct)
  case (1 pn c n i j r)
  show ?case
  proof (cases "i < n")
    case True
    with "1.prems" obtain j1 r1 where
      round: "panelremove_round pn c True i j r = Some (Inr (j1, r1))" and
      rest: "panelremove_loop pn c True n (i + 1) j1 r1 = Some (Inr (j', r'))"
      by (auto simp: panelremove_loop.simps [of pn c True n i] split: option.splits sum.splits)
    from panelremove_round_destroy_inv [OF round "1.prems"(2) True]
    have "destroy_inv pn c a n (i + 1) j1 r1" by simp
    from "1.hyps" [OF True round refl refl rest this] show ?thesis .
  next
    case False
    with "1.prems" have "i = n" "j' = j" "r' = r"
      by (simp_all add: panelremove_loop.simps [of pn c True n i] destroy_inv_def)
    with "1.prems" show ?thesis by simp
  qed
qed

lemma panelremove_destroy_panels:
  assumes "panelremove r pn True = Some (Inr (ret, r'))" "0 \<le> pn" "pn < int (numpanels r)"
  shows "ret = 0 \<and>
    panels r' =
      map (panel r) (filter (kept pn (content (panel r (nat pn))) (panel r)) [0..<numpanels r])"
proof -
  define c where "c = content (panel r (nat pn))"
  define r0 where "r0 = (if c = activecontent r then r\<lparr>activecontent := 0\<rparr> else r)"
  from assms obtain j r1 where
    loop: "panelremove_loop pn c True (numpanels r0) 0 0 r0 = Some (Inr (j, r1))" and
    r': "r' = (if numactive r1 = 0 then r1\<lparr>activepanel := - 1\<rparr> else r1)" and ret: "ret = 0"
    by (auto simp: panelremove_def Let_def c_def r0_def split: option.splits sum.splits)
  have "destroy_inv pn c (panel r) (numpanels r0) 0 0 r0"
    by (simp add: destroy_inv_def r0_def)
  from panelremove_loop_destroy_inv [OF loop this]
  have "numpanels r1 = j" "map (panel r1) [0..<j] = map (panel r) (filter (kept pn c (panel r)) [0..<numpanels r])"
    by (simp_all add: destroy_inv_def r0_def)
  then show ?thesis
    by (simp add: panels_def r' ret c_def)
qed

subsection \<open>The registry in the states of the main loop\<close>

text \<open>
  The loop that skips withdrawn panels, when it ends, leaves the active index at a
  registered panel that is not withdrawn, whatever the step is.
\<close>

lemma c_rem_less: "0 < b \<Longrightarrow> c_rem a b < b"
proof -
  assume b: "0 < b"
  have "\<bar>a\<bar> mod \<bar>b\<bar> < b" "0 \<le> \<bar>a\<bar> mod \<bar>b\<bar>" using b by simp_all
  then show ?thesis
    by (cases "a < 0"; cases "a = 0") (simp_all add: c_rem_def)
qed

lemma skip_withdrawn_live_aux:
  assumes "skip_withdrawn r rel = Some y"
  shows "\<forall>r'. y = Inr r' \<longrightarrow> 0 \<le> activepanel r' \<and> activepanel r' < int (numpanels r) \<and>
    \<not> withdrawn (panel r (nat (activepanel r')))"
proof (rule skip_withdrawn.raw_induct
    [where P = "\<lambda>r rel y. \<forall>r'. y = Inr r' \<longrightarrow> 0 \<le> activepanel r' \<and>
       activepanel r' < int (numpanels r) \<and> \<not> withdrawn (panel r (nat (activepanel r')))",
     OF _ assms])
  fix loop :: "registry \<Rightarrow> int \<Rightarrow> (crash + registry) option"
  fix r rel y
  assume IH: "\<And>r0 rel0 y0. loop r0 rel0 = Some y0 \<Longrightarrow>
    \<forall>r'. y0 = Inr r' \<longrightarrow> 0 \<le> activepanel r' \<and> activepanel r' < int (numpanels r0) \<and>
      \<not> withdrawn (panel r0 (nat (activepanel r')))"
  assume body: "(case MODULEINCREASE (activepanel r) (int (numpanels r)) rel of
        Inl e \<Rightarrow> Some (Inl e)
      | Inr a \<Rightarrow>
          if a < 0 then Some (Inl OutOfBounds)
          else if withdrawn (panel r (nat a)) then loop (r\<lparr>activepanel := a\<rparr>) rel
          else Some (Inr (r\<lparr>activepanel := a\<rparr>))) = Some y"
  show "\<forall>r'. y = Inr r' \<longrightarrow> 0 \<le> activepanel r' \<and> activepanel r' < int (numpanels r) \<and>
    \<not> withdrawn (panel r (nat (activepanel r')))"
  proof (intro allI impI)
    fix r' assume y: "y = Inr r'"
    show "0 \<le> activepanel r' \<and> activepanel r' < int (numpanels r) \<and>
      \<not> withdrawn (panel r (nat (activepanel r')))"
    proof (cases "MODULEINCREASE (activepanel r) (int (numpanels r)) rel")
      case (Inl e)
      with body y show ?thesis by simp
    next
      case (Inr a)
      then have np: "0 < numpanels r" and a: "a = c_rem (activepanel r + int (numpanels r) + rel) (int (numpanels r))"
        by (auto simp: MODULEINCREASE_def split: if_splits)
      from a np have less: "a < int (numpanels r)" using c_rem_less [of "int (numpanels r)"] by simp
      show ?thesis
      proof (cases "0 \<le> a \<and> withdrawn (panel r (nat a))")
        case True
        with body Inr have "loop (r\<lparr>activepanel := a\<rparr>) rel = Some y" by simp
        from IH [OF this] y show ?thesis by simp
      next
        case False
        with body Inr y less show ?thesis by (auto split: if_splits)
      qed
    qed
  qed
qed

lemma skip_withdrawn_live:
  assumes "skip_withdrawn r rel = Some (Inr r')"
  shows "active_live r'"
  using skip_withdrawn_live_aux [OF assms] skip_withdrawn_fields [OF assms]
  by (simp add: active_live_def)

lemma active_live_count: "active_live r \<Longrightarrow> 0 < live_count r"
proof -
  assume "active_live r"
  then have "nat (activepanel r) < numpanels r" "\<not> withdrawn (panel r (nat (activepanel r)))"
    by (simp_all add: active_live_def nat_less_iff)
  from live_between_less [of "nat (activepanel r)" "numpanels r" "panel r"] this
  show ?thesis by (simp add: live_count_def)
qed

lemma enter_in_range:
  assumes ok: "numactive_ok r" and range: "0 \<le> activepanel r" "activepanel r < int (numpanels r)"
  shows "\<exists>r'. panelenter r = Inr r' \<and> registry_inv r'"
proof -
  from panelenter_restores [OF range] obtain r' where
    r': "panelenter r = Inr r'" "\<not> withdrawn (panel r' (nat (activepanel r)))"
      "activepanel r' = activepanel r" "numpanels r' = numpanels r" by blast
  from panelenter_numactive_ok [OF r'(1) ok] have ok': "numactive_ok r'" .
  from r' range have live: "active_live r'" by (simp add: active_live_def)
  from active_live_count [OF live] ok' have "numactive r' \<noteq> 0" by (simp add: numactive_ok_def)
  with ok' live r'(1) show ?thesis by (simp add: registry_inv_def)
qed

text \<open>
  \<open>panelremove\<close>, when it returns, leaves the active index at a registered panel if
  \<open>numactive\<close> is positive, and at \<open>-1\<close> otherwise.
\<close>

lemma panelremove_round_active_inv:
  assumes round: "panelremove_round pn c d i j r = Some (Inr (j', r'))"
    and inv: "active_inv d n i j r" and i: "i < n"
  shows "active_inv d n (Suc i) j' r'"
proof (cases "int i = pn \<or> leader (panel r i) = c")
  case False
  from panelremove_round_miss [OF round False] inv i show ?thesis
    by (auto simp: active_inv_def keep_slot_def)
next
  case True
  define r2 where "r2 = matched_slot d i r"
  from panelremove_round_match [OF round True] obtain r3 where
    r3: "if activepanel r2 = int j \<and> numactive r2 > 0
     then skip_withdrawn r2 (- 1) = Some (Inr r3) else r3 = r2"
    and j': "j' = (if d then j else Suc j)"
    and r': "r' = (if d then (if activepanel r3 > int j
                      then r3\<lparr>activepanel := activepanel r3 - 1\<rparr> else r3)
           else keep_slot i j r3)"
    unfolding r2_def .
  have f2: "numactive r2 \<le> numactive r" "numpanels r2 = (if d then numpanels r - 1 else numpanels r)"
    "activepanel r2 = activepanel r"
    by (simp_all add: r2_def matched_slot_fields)
  have f3: "numpanels r3 = numpanels r2" "numactive r3 = numactive r2"
    using r3 by (auto simp: skip_withdrawn_fields split: if_splits)
  have range3: "(0 \<le> activepanel r3 \<and> activepanel r3 < int (numpanels r3)) \<or>
      (activepanel r3 = activepanel r \<and> 0 \<le> activepanel r \<and>
       activepanel r < int (numpanels r) \<and> activepanel r \<noteq> int j)"
    if pos: "0 < numactive r3"
  proof (cases "activepanel r2 = int j \<and> numactive r2 > 0")
    case True
    with r3 have "skip_withdrawn r2 (- 1) = Some (Inr r3)" by simp
    from skip_withdrawn_live [OF this] show ?thesis by (simp add: active_live_def)
  next
    case False
    with r3 have eq: "r3 = r2" by simp
    from pos f3 f2 have "0 < numactive r" by simp
    with inv have "0 \<le> activepanel r" "activepanel r < int (numpanels r)"
      by (simp_all add: active_inv_def)
    moreover from False pos f3 have "activepanel r \<noteq> int j" by (simp add: f2)
    ultimately show ?thesis using eq f2 by simp
  qed
  show ?thesis
  proof (cases d)
    case True
    with inv i have geo: "j \<le> i" "numpanels r + i = n + j" by (simp_all add: active_inv_def)
    then have np: "j < numpanels r" using i by simp
    have "0 \<le> activepanel r' \<and> activepanel r' < int (numpanels r')" if pos: "0 < numactive r'"
    proof -
      from pos True have pos3: "0 < numactive r3" by (simp add: r' split: if_splits)
      have np': "numpanels r' = numpanels r - 1" using True by (simp add: r' f3 f2)
      have ap': "activepanel r' = (if activepanel r3 > int j then activepanel r3 - 1 else activepanel r3)"
        using True by (simp add: r')
      from range3 [OF pos3] show ?thesis
      proof
        assume "0 \<le> activepanel r3 \<and> activepanel r3 < int (numpanels r3)"
        then show ?thesis using np by (auto simp: ap' np' f3 f2 True)
      next
        assume "activepanel r3 = activepanel r \<and> 0 \<le> activepanel r \<and>
          activepanel r < int (numpanels r) \<and> activepanel r \<noteq> int j"
        then show ?thesis using np by (auto simp: ap' np')
      qed
    qed
    moreover have "numpanels r' + Suc i = n + j'"
      using True geo np by (simp add: r' j' f3 f2)
    ultimately show ?thesis using True geo by (simp add: active_inv_def j')
  next
    case False
    have "0 \<le> activepanel r' \<and> activepanel r' < int (numpanels r')" if pos: "0 < numactive r'"
    proof -
      from pos False have pos3: "0 < numactive r3" by (simp add: r' keep_slot_fields)
      have "numpanels r' = numpanels r" "activepanel r' = activepanel r3" "numpanels r3 = numpanels r"
        using False by (simp_all add: r' keep_slot_def f3 f2)
      with range3 [OF pos3] show ?thesis by auto
    qed
    with False show ?thesis by (simp add: active_inv_def)
  qed
qed

lemma panelremove_loop_active_inv:
  "panelremove_loop pn c d n i j r = Some (Inr (j', r')) \<Longrightarrow> active_inv d n i j r \<Longrightarrow>
   i \<le> n \<Longrightarrow> active_inv d n n j' r'"
proof (induction pn c d n i j r rule: panelremove_loop.induct)
  case (1 pn c d n i j r)
  show ?case
  proof (cases "i < n")
    case True
    with "1.prems" obtain j1 r1 where
      round: "panelremove_round pn c d i j r = Some (Inr (j1, r1))" and
      rest: "panelremove_loop pn c d n (i + 1) j1 r1 = Some (Inr (j', r'))"
      by (auto simp: panelremove_loop.simps [of pn c d n i] split: option.splits sum.splits)
    from panelremove_round_active_inv [OF round "1.prems"(2) True]
    have "active_inv d n (i + 1) j1 r1" by simp
    from "1.IH" [OF True round refl refl rest this] True show ?thesis by simp
  next
    case False
    with "1.prems" have "i = n" "j' = j" "r' = r"
      by (simp_all add: panelremove_loop.simps [of pn c d n i])
    with "1.prems" show ?thesis by simp
  qed
qed

lemma panelremove_active_in_range:
  assumes rem: "panelremove r pn d = Some (Inr (ret, r'))"
    and pn: "0 \<le> pn" "pn < int (numpanels r)"
    and ok: "numactive_ok r"
    and range: "0 < numactive r \<longrightarrow> 0 \<le> activepanel r \<and> activepanel r < int (numpanels r)"
  shows "numactive_ok r' \<and> active_in_range r'"
proof -
  define c where "c = content (panel r (nat pn))"
  define r0 where "r0 = (if c = activecontent r then r\<lparr>activecontent := 0\<rparr> else r)"
  from rem pn obtain j r1 where
    loop: "panelremove_loop pn c d (numpanels r0) 0 0 r0 = Some (Inr (j, r1))" and
    r': "r' = (if numactive r1 = 0 then r1\<lparr>activepanel := - 1\<rparr> else r1)"
    by (auto simp: panelremove_def Let_def c_def r0_def split: option.splits sum.splits)
  from range have "active_inv d (numpanels r0) 0 0 r0"
    by (simp add: active_inv_def r0_def)
  from panelremove_loop_active_inv [OF loop this]
  have inv: "0 < numactive r1 \<longrightarrow> 0 \<le> activepanel r1 \<and> activepanel r1 < int (numpanels r1)"
    by (simp add: active_inv_def)
  from panelremove_numactive_ok [OF rem ok] have ok': "numactive_ok r'" .
  then have "0 \<le> numactive r'" by (simp add: numactive_ok_def)
  with inv have "active_in_range r'"
    by (auto simp: active_in_range_def r' split: if_splits)
  with ok' show ?thesis by simp
qed

text \<open>The events keep the registry as \<open>registry_inv\<close> says.\<close>

lemma registry_inv_range:
  "registry_inv r \<Longrightarrow> numactive_ok r \<and> (0 < numactive r \<longrightarrow> 0 \<le> activepanel r \<and> activepanel r < int (numpanels r))"
  by (auto simp: registry_inv_def active_live_def)

lemma switch_to_inv:
  assumes "numactive_ok (reg v)" "0 \<le> pn" "pn < int (numpanels (reg v))"
    and "switch_to v pn = Inr v'"
  shows "registry_inv (reg v')"
proof -
  have ok: "numactive_ok ((panelleave (reg v))\<lparr>activepanel := pn\<rparr>)"
    using assms(1) by (simp add: numactive_ok_def live_count_def panelleave_def)
  from enter_in_range [OF ok] assms(2,3) obtain r' where
    "panelenter ((panelleave (reg v))\<lparr>activepanel := pn\<rparr>) = Inr r'" "registry_inv r'"
    by (auto simp: panelleave_def)
  with assms(4) show ?thesis by (auto simp: switch_to_def)
qed

lemma enter_or_quit_inv:
  assumes "numactive_ok (reg v)" "active_in_range (reg v)"
    and "enter_or_quit q v = Inr (v', stop)"
  shows "registry_inv (reg v') \<and> numpanels (reg v') = numpanels (reg v) \<and>
    (\<forall>m. leader (panel (reg v') m) = leader (panel (reg v) m))"
proof (cases "numactive (reg v) > 0")
  case True
  with assms(2) have range: "0 \<le> activepanel (reg v)" "activepanel (reg v) < int (numpanels (reg v))"
    by (simp_all add: active_in_range_def)
  from enter_in_range [OF assms(1) range] obtain r' where
    r': "panelenter (reg v) = Inr r'" "registry_inv r'" by blast
  from panelenter_restores [OF range] r'(1)
  have "numpanels r' = numpanels (reg v)"
    "\<forall>m. m \<noteq> nat (activepanel (reg v)) \<longrightarrow> panel r' m = panel (reg v) m" by auto
  moreover have "leader (panel r' (nat (activepanel (reg v)))) =
    leader (panel (reg v) (nat (activepanel (reg v))))"
    using r'(1) range by (auto simp: panelenter_def Let_def split: if_splits)
  ultimately have "numpanels r' = numpanels (reg v)"
    "\<forall>m. leader (panel r' m) = leader (panel (reg v) m)" by (simp, metis)
  with assms(3) True r' show ?thesis by (auto simp: enter_or_quit_def)
next
  case False
  with assms(1) have zero: "numactive (reg v) = 0" by (simp add: numactive_ok_def)
  with assms(2) have "activepanel (reg v) = - 1" by (simp add: active_in_range_def)
  with zero assms(1,3) show ?thesis
    by (auto simp: enter_or_quit_def registry_inv_def numactive_ok_def live_count_def
        split: if_splits)
qed

lemma paneladd_cases:
  "paneladd r p w wmname ld = (pn, out, r') \<Longrightarrow>
   (pn = - 1 \<and> r' = r) \<or>
   (0 \<le> pn \<and> pn < int (numpanels r'))"
  using panelfind_range [of r w "PANEL + CONTENT"]
  by (auto simp: paneladd_def Let_def split: if_splits)

lemma main_MapRequest_inv:
  assumes "registry_inv (reg v)" "main_MapRequest v p w wmname ld = Inr v'"
  shows "registry_inv (reg v')"
proof -
  obtain pn out r where add: "paneladd (reg v) p w wmname ld = (pn, out, r)"
    by (cases "paneladd (reg v) p w wmname ld") auto
  from assms(1) have "numactive_ok (reg v)" by (simp add: registry_inv_def)
  from paneladd_numactive_ok [OF this, of p w wmname ld] add have ok: "numactive_ok r" by simp
  show ?thesis
  proof (cases "pn = - 1")
    case True
    with assms add show ?thesis by (simp add: main_MapRequest_def)
  next
    case False
    with paneladd_cases [OF add] have range: "0 \<le> pn" "pn < int (numpanels r)" by auto
    have leave: "(if activepanel r \<noteq> - 1 then panelleave r else r) = r"
      by (simp add: panelleave_def)
    from assms(2) add False
    have "(case panelenter ((if activepanel r \<noteq> - 1 then panelleave r else r)
                              \<lparr>activepanel := pn\<rparr>) of
             Inl e \<Rightarrow> Inl e
           | Inr r' \<Rightarrow> Inr (v\<lparr>reg := r'\<rparr>)) = Inr v'"
      by (simp add: main_MapRequest_def)
    then have "(case panelenter (r\<lparr>activepanel := pn\<rparr>) of
             Inl e \<Rightarrow> Inl e
           | Inr r' \<Rightarrow> Inr (v\<lparr>reg := r'\<rparr>)) = Inr v'"
      unfolding leave .
    then obtain r' where
      "panelenter (r\<lparr>activepanel := pn\<rparr>) = Inr r'" "v' = v\<lparr>reg := r'\<rparr>"
      by (cases "panelenter (r\<lparr>activepanel := pn\<rparr>)") auto
    then have "switch_to (v\<lparr>reg := r\<rparr>) pn = Inr v'"
      by (simp add: switch_to_def panelleave_def)
    from switch_to_inv [OF _ _ _ this] ok range show ?thesis by simp
  qed
qed

lemma main_MapNotify_inv:
  assumes "registry_inv (reg v)" "main_MapNotify v w = Inr v'"
  shows "registry_inv (reg v')"
proof -
  define pn where "pn = panelfind (reg v) w CONTENT"
  show ?thesis
  proof (cases "pn = - 1 \<or> pn = activepanel (reg v)")
    case True
    with assms show ?thesis by (simp add: main_MapNotify_def pn_def Let_def)
  next
    case False
    with panelfind_range [of "reg v" w CONTENT]
    have range: "0 \<le> pn" "pn < int (numpanels (reg v))" by (auto simp: pn_def)
    from assms(2) False have "switch_to v pn = Inr v'"
      by (simp add: main_MapNotify_def pn_def Let_def)
    from switch_to_inv [OF _ range this] assms(1) show ?thesis by (simp add: registry_inv_def)
  qed
qed

lemma main_DestroyNotify_inv:
  assumes "registry_inv (reg v)" "main_DestroyNotify q v p = Some (Inr v')"
  shows "registry_inv (reg v')"
proof -
  define pn where "pn = panelfind (reg v) p PANEL"
  show ?thesis
  proof (cases "pn = - 1")
    case True
    with assms show ?thesis by (simp add: main_DestroyNotify_def pn_def Let_def)
  next
    case False
    with panelfind_range [of "reg v" p PANEL]
    have range: "0 \<le> pn" "pn < int (numpanels (reg v))" by (auto simp: pn_def)
    from assms(2) False obtain ret r where
      rem: "panelremove (reg v) pn True = Some (Inr (ret, r))" and
      res: "map_sum id fst (enter_or_quit q (v\<lparr>reg := r\<rparr>)) = Inr v'"
      by (auto simp: main_DestroyNotify_def pn_def [symmetric] Let_def
          split: option.splits sum.splits)
    from res obtain stop where eq: "enter_or_quit q (v\<lparr>reg := r\<rparr>) = Inr (v', stop)"
      by (cases "enter_or_quit q (v\<lparr>reg := r\<rparr>)") auto
    from registry_inv_range [OF assms(1)]
    have "numactive_ok (reg v)"
      "0 < numactive (reg v) \<longrightarrow> 0 \<le> activepanel (reg v) \<and> activepanel (reg v) < int (numpanels (reg v))"
      by simp_all
    from panelremove_active_in_range [OF rem range this]
    have "numactive_ok r" "active_in_range r" by simp_all
    from enter_or_quit_inv [OF _ _ eq] this show ?thesis by simp
  qed
qed

lemma main_UnmapNotify_inv:
  assumes inv: "registry_inv (reg v)" and ev: "main_UnmapNotify q v w send_event = Some (Inr v')"
  shows "registry_inv (reg v')"
proof -
  define pn where "pn = panelfind (reg v) w CONTENT"
  show ?thesis
  proof (cases "pn = - 1")
    case True
    with assms show ?thesis by (simp add: main_UnmapNotify_def pn_def Let_def)
  next
    case False
    with panelfind_range [of "reg v" w CONTENT]
    have range: "0 \<le> pn" "pn < int (numpanels (reg v))" by (auto simp: pn_def)
    define first where "first = (if send_event then
                 (case panelremove (reg v) pn False of
                    None \<Rightarrow> None
                  | Some (Inl e) \<Rightarrow> Some (Inl e)
                  | Some (Inr (ret, r)) \<Rightarrow> Some (enter_or_quit q (v\<lparr>reg := r\<rparr>)))
               else Some (Inr (v, False)))"
    have unfold: "main_UnmapNotify q v w send_event =
      (case first of
           None \<Rightarrow> None
         | Some (Inl e) \<Rightarrow> Some (Inl e)
         | Some (Inr (v1, stop)) \<Rightarrow>
             if stop then Some (Inr v1)
             else
               let ld = leader (panel (reg v1) (nat pn)) in
               if ld = 0 then Some (Inr v1)
               else
                 let pn2 = panelfind (reg v1) ld CONTENT in
                 if pn2 = - 1 \<or> pn2 = activepanel (reg v1) then Some (Inr v1)
                 else Some (switch_to v1 pn2))"
      using False unfolding main_UnmapNotify_def first_def pn_def Let_def by simp
    from ev unfold obtain v1 stop where first: "first = Some (Inr (v1, stop))"
      by (cases first) (auto split: sum.splits)
    have inv1: "registry_inv (reg v1)"
    proof (cases send_event)
      case False
      with first inv show ?thesis by (simp add: first_def)
    next
      case True
      with first obtain ret r where
        rem: "panelremove (reg v) pn False = Some (Inr (ret, r))" and
        eq: "enter_or_quit q (v\<lparr>reg := r\<rparr>) = Inr (v1, stop)"
        by (auto simp: first_def split: option.splits sum.splits)
      from registry_inv_range [OF inv]
      have "numactive_ok (reg v)"
        "0 < numactive (reg v) \<longrightarrow> 0 \<le> activepanel (reg v) \<and> activepanel (reg v) < int (numpanels (reg v))"
        by simp_all
      from panelremove_active_in_range [OF rem range this]
      have "numactive_ok r" "active_in_range r" by simp_all
      from enter_or_quit_inv [OF _ _ eq] this show ?thesis by simp
    qed
    define ld where "ld = leader (panel (reg v1) (nat pn))"
    define pn2 where "pn2 = panelfind (reg v1) ld CONTENT"
    show ?thesis
    proof (cases "stop \<or> ld = 0 \<or> pn2 = - 1 \<or> pn2 = activepanel (reg v1)")
      case True
      with ev unfold first have "v' = v1" by (auto simp: Let_def ld_def pn2_def split: if_splits)
      with inv1 show ?thesis by simp
    next
      case False
      with ev unfold first have sw: "switch_to v1 pn2 = Inr v'"
        by (auto simp: Let_def ld_def pn2_def split: if_splits)
      from False panelfind_range [of "reg v1" ld CONTENT]
      have "0 \<le> pn2" "pn2 < int (numpanels (reg v1))" by (auto simp: pn2_def)
      from switch_to_inv [OF _ this sw] inv1 show ?thesis by (simp add: registry_inv_def)
    qed
  qed
qed

text \<open>The commands keep it too.\<close>

lemma panelswitch_inv:
  assumes "registry_inv r" "panelswitch r rel = Some (Inr (ret, r'))"
  shows "registry_inv r'"
proof (cases "activepanel r = - 1")
  case True
  with assms show ?thesis by (simp add: panelswitch_def)
next
  case False
  with assms(2) obtain r1 where skip: "skip_withdrawn r rel = Some (Inr r1)"
    and enter: "panelenter r1 = Inr r'"
    by (auto simp: panelswitch_def panelleave_def split: option.splits sum.splits)
  from skip_withdrawn_live [OF skip] have live: "active_live r1" .
  from assms(1) skip_withdrawn_fields [OF skip] have ok: "numactive_ok r1"
    by (simp add: registry_inv_def numactive_ok_def live_count_def)
  from enter_in_range [OF ok] live enter show ?thesis by (auto simp: active_live_def)
qed

lemma switch_panel_inv:
  assumes "registry_inv (reg v)" "switch_panel v rel = Some (Inr v')"
  shows "registry_inv (reg v')"
proof -
  from assms(2) obtain ret r' where "panelswitch (reg v) rel = Some (Inr (ret, r'))" "v' = v\<lparr>reg := r'\<rparr>"
    by (auto simp: switch_panel_def split: option.splits sum.splits)
  with panelswitch_inv [OF assms(1)] show ?thesis by simp
qed

lemma hide_or_ok_reg: "hide_or_ok v cmd = Inr (v', cmd') \<Longrightarrow> reg v' = reg v"
  by (auto simp: hide_or_ok_def Let_def split: if_splits option.splits)

lemma quit_command_reg: "reg (quit_command v) = reg v"
  by (simp add: quit_command_def)

lemma up_or_down_inv:
  assumes "registry_inv (reg v)" "up_or_down v cmd = Some (Inr v')"
  shows "registry_inv (reg v')"
proof -
  define i :: int where "i = (if cmd = UPWINDOW then - 1 else 1)"
  define first where "first = (if showpanel v then switch_panel v i else Some (Inr v))"
  have unfold: "up_or_down v cmd =
    (case first of
        None \<Rightarrow> None
      | Some (Inl e) \<Rightarrow> Some (Inl e)
      | Some (Inr v1) \<Rightarrow>
          (case (if showprogs v1
                 then map_sum id (\<lambda>n. v1\<lparr>progselected := n\<rparr>)
                        (MODULEINCREASE (progselected v1) (int (numprograms v1)) i)
                 else Inr v1) of
             Inl e \<Rightarrow> Some (Inl e)
           | Inr v2 \<Rightarrow>
               (case (if showconfirm v2
                      then map_sum id (\<lambda>n. v2\<lparr>confirmselected := n\<rparr>)
                             (MODULEINCREASE (confirmselected v2) 2 i)
                      else Inr v2) of
                  Inl e \<Rightarrow> Some (Inl e)
                | Inr v3 \<Rightarrow> Some (Inr v3))))"
    unfolding up_or_down_def first_def i_def Let_def by simp
  from assms(2) unfold obtain v1 where first: "first = Some (Inr v1)"
    by (cases first) (auto split: sum.splits)
  have inv1: "registry_inv (reg v1)"
    using first assms(1) switch_panel_inv [of v i v1] by (auto simp: first_def split: if_splits)
  from assms(2) unfold first obtain v2 where
    v2: "(if showprogs v1
                 then map_sum id (\<lambda>n. v1\<lparr>progselected := n\<rparr>)
                        (MODULEINCREASE (progselected v1) (int (numprograms v1)) i)
                 else Inr v1) = Inr v2"
    and v3: "(if showconfirm v2
                      then map_sum id (\<lambda>n. v2\<lparr>confirmselected := n\<rparr>)
                             (MODULEINCREASE (confirmselected v2) 2 i)
                      else Inr v2) = Inr v'"
    by (auto split: sum.splits)
  from v2 have "reg v2 = reg v1"
    by (cases "MODULEINCREASE (progselected v1) (int (numprograms v1)) i") (auto split: if_splits)
  moreover from v3 have "reg v' = reg v2"
    by (cases "MODULEINCREASE (confirmselected v2) 2 i") (auto split: if_splits)
  ultimately show ?thesis using inv1 by simp
qed

lemma endwindow_loop_moves:
  "endwindow_loop i r = Inr r' \<Longrightarrow> 0 \<le> i \<Longrightarrow> i < int (numpanels r) \<Longrightarrow>
   numpanels r' = numpanels r \<and> numactive r' = numactive r \<and> live_count r' = live_count r \<and>
   panel r' (numpanels r - 1) = panel r (nat i)"
proof (induction i r rule: endwindow_loop.induct)
  case (1 i r)
  show ?case
  proof (cases "i < int (numpanels r) - 1")
    case True
    define r1 where "r1 = r\<lparr>panel := (panel r)(nat (i + 1) := panel r (nat i),
                                              nat i := panel r (nat (i + 1)))\<rparr>"
    from True "1.prems" have swap: "panelswap r i (i + 1) = Inr (0, r1)"
      by (simp add: panelswap_def r1_def)
    with "1.prems" True have rest: "endwindow_loop (i + 1) r1 = Inr r'"
      by (simp add: endwindow_loop.simps [of i r])
    have "numpanels r' = numpanels r1 \<and> numactive r' = numactive r1 \<and> live_count r' = live_count r1 \<and>
      panel r' (numpanels r1 - 1) = panel r1 (nat (i + 1))"
      using "1.prems" True by (intro "1.IH" [OF True swap refl rest]) (simp_all add: r1_def)
    moreover have "live_count r1 = live_count r"
      using live_between_swap [of "nat i" "numpanels r" "nat (i + 1)" "panel r"] True "1.prems"
      by (simp add: live_count_def r1_def)
    moreover have "panel r1 (nat (i + 1)) = panel r (nat i)"
      using "1.prems" by (simp add: r1_def nat_add_distrib)
    ultimately show ?thesis by (simp add: r1_def)
  next
    case False
    with "1.prems" have "r' = r" "nat i = numpanels r - 1"
      by (simp_all add: endwindow_loop.simps [of i r])
    then show ?thesis by simp
  qed
qed

lemma done_Inr:
  assumes "map_option (map_sum id (\<lambda>v'. (v', c))) x = Some (Inr (v', cmd'))"
  shows "x = Some (Inr v')"
proof (cases x)
  case None
  with assms show ?thesis by simp
next
  case (Some a)
  with assms show ?thesis by (cases a) auto
qed

lemma main_switch_inv:
  assumes inv: "registry_inv (reg v)" and sw: "main_switch v cmd = Some (Inr (v', cmd'))"
  shows "registry_inv (reg v')"
proof -
  consider (switch) "cmd \<noteq> NOCOMMAND" "cmd = NEXTPANEL \<or> cmd = PREVPANEL"
    | (updown) "cmd \<noteq> NOCOMMAND" "\<not> (cmd = NEXTPANEL \<or> cmd = PREVPANEL)" "cmd \<noteq> RESTART" "cmd \<noteq> QUIT"
        "cmd \<noteq> PANELWINDOW" "cmd \<noteq> PROGSWINDOW" "cmd \<noteq> CONFIRMWINDOW"
        "cmd = UPWINDOW \<or> cmd = DOWNWINDOW"
    | (ok) "cmd \<noteq> NOCOMMAND" "\<not> (cmd = NEXTPANEL \<or> cmd = PREVPANEL)" "cmd \<noteq> RESTART" "cmd \<noteq> QUIT"
        "cmd \<noteq> PANELWINDOW" "cmd \<noteq> PROGSWINDOW" "cmd \<noteq> CONFIRMWINDOW"
        "\<not> (cmd = UPWINDOW \<or> cmd = DOWNWINDOW)" "cmd = HIDEWINDOW \<or> cmd = OKWINDOW"
    | (endw) "cmd \<noteq> NOCOMMAND" "\<not> (cmd = NEXTPANEL \<or> cmd = PREVPANEL)" "cmd \<noteq> RESTART" "cmd \<noteq> QUIT"
        "cmd \<noteq> PANELWINDOW" "cmd \<noteq> PROGSWINDOW" "cmd \<noteq> CONFIRMWINDOW"
        "\<not> (cmd = UPWINDOW \<or> cmd = DOWNWINDOW)" "\<not> (cmd = HIDEWINDOW \<or> cmd = OKWINDOW)"
        "cmd \<noteq> KOWINDOW" "cmd = ENDWINDOW"
    | (other) "cmd = NOCOMMAND \<or> cmd = RESTART \<or> cmd = QUIT \<or> cmd = PANELWINDOW \<or>
        cmd = PROGSWINDOW \<or> cmd = CONFIRMWINDOW \<or> cmd = KOWINDOW \<or>
        (cmd \<noteq> NEXTPANEL \<and> cmd \<noteq> PREVPANEL \<and> cmd \<noteq> UPWINDOW \<and> cmd \<noteq> DOWNWINDOW \<and>
         cmd \<noteq> HIDEWINDOW \<and> cmd \<noteq> OKWINDOW \<and> cmd \<noteq> ENDWINDOW)"
    by blast
  then show ?thesis
  proof cases
    case switch
    with sw have "map_option (map_sum id (\<lambda>v'. (v', NOCOMMAND)))
        (switch_panel v (if cmd = PREVPANEL then - 1 else 1)) = Some (Inr (v', cmd'))"
      by (simp add: main_switch_def Let_def)
    then have "switch_panel v (if cmd = PREVPANEL then - 1 else 1) = Some (Inr v')"
      by (rule done_Inr)
    from switch_panel_inv [OF inv this] show ?thesis .
  next
    case updown
    with sw have "map_option (map_sum id (\<lambda>v'. (v', NOCOMMAND))) (up_or_down v cmd) =
        Some (Inr (v', cmd'))"
      by (simp add: main_switch_def Let_def)
    then have "up_or_down v cmd = Some (Inr v')"
      by (rule done_Inr)
    from up_or_down_inv [OF inv this] show ?thesis .
  next
    case ok
    with sw have "hide_or_ok v cmd = Inr (v', cmd')"
      by (auto simp: main_switch_def Let_def)
    from hide_or_ok_reg [OF this] inv show ?thesis by simp
  next
    case endw
    show ?thesis
    proof (cases "showpanel v \<and> activepanel (reg v) \<noteq> - 1 \<and>
            activepanel (reg v) < int (numpanels (reg v)) - 1")
      case False
      with endw sw have "v' = v" by (auto simp: main_switch_def Let_def)
      with inv show ?thesis by simp
    next
      case True
      with endw sw obtain r where loop: "endwindow_loop (activepanel (reg v)) (reg v) = Inr r"
        and v': "v' = v\<lparr>reg := r\<lparr>activepanel := int (numpanels r) - 1\<rparr>\<rparr>"
        by (auto simp: main_switch_def Let_def split: sum.splits)
      from True inv have live: "active_live (reg v)" and ok: "numactive_ok (reg v)"
        by (auto simp: registry_inv_def split: if_splits)
      then have range: "0 \<le> activepanel (reg v)" "activepanel (reg v) < int (numpanels (reg v))"
        by (simp_all add: active_live_def)
      from endwindow_loop_moves [OF loop range] have moved:
        "numpanels r = numpanels (reg v)" "numactive r = numactive (reg v)"
        "live_count r = live_count (reg v)"
        "panel r (numpanels (reg v) - 1) = panel (reg v) (nat (activepanel (reg v)))"
        by simp_all
      define r' where "r' = r\<lparr>activepanel := int (numpanels r) - 1\<rparr>"
      have "live_count r' = live_count r" by (simp add: r'_def live_count_def)
      with moved ok have ok': "numactive_ok r'" by (simp add: numactive_ok_def r'_def)
      have "nat (int (numpanels (reg v)) - 1) = numpanels (reg v) - 1" by simp
      with moved live range have live': "active_live r'"
        by (simp add: active_live_def r'_def)
      from active_live_count [OF live'] ok' have "numactive r' \<noteq> 0" by (simp add: numactive_ok_def)
      with ok' live' show ?thesis by (simp add: registry_inv_def v' r'_def)
    qed
  next
    case other
    with sw have "reg v' = reg v"
      by (auto simp: main_switch_def Let_def quit_command_reg command_defs split: if_splits)
    with inv show ?thesis by simp
  qed
qed

lemma main_command_inv:
  assumes inv: "registry_inv (reg v)" and c: "main_command v cmd0 = Some (Inr (v', cmd'))"
  shows "registry_inv (reg v')"
proof (cases "NUMWINDOW 1 \<le> toggle_command v cmd0")
  case False
  with c have "main_switch v (toggle_command v cmd0) = Some (Inr (v', cmd'))"
    by (simp add: main_command_def Let_def)
  from main_switch_inv [OF inv this] show ?thesis .
next
  case True
  define cmd where "cmd = toggle_command v cmd0"
  show ?thesis
  proof (cases "showpanel v \<and> activepanel (reg v) = - 1")
    case stay: True
    with True c have "v' = v" by (simp add: main_command_def Let_def)
    with inv show ?thesis by simp
  next
    case go: False
    define first where "first = (if showpanel v
                  then switch_panel v (cmd - NUMWINDOW 1 - panels_before (reg v))
                  else Some (Inr v))"
    have unfold: "main_command v cmd0 =
      (case first of
              None \<Rightarrow> None
            | Some (Inl e) \<Rightarrow> Some (Inl e)
            | Some (Inr v1) \<Rightarrow>
                main_switch
                  (if showprogs v1 then v1\<lparr>progselected := cmd - NUMWINDOW 1\<rparr> else v1)
                  OKWINDOW)"
      unfolding main_command_def Let_def first_def cmd_def using True go by (simp only: if_True if_False)
    from c unfold obtain v1 where first: "first = Some (Inr v1)"
      and ok: "main_switch (if showprogs v1 then v1\<lparr>progselected := cmd - NUMWINDOW 1\<rparr> else v1)
                  OKWINDOW = Some (Inr (v', cmd'))"
      by (cases first) (auto split: sum.splits)
    have "registry_inv (reg v1)"
      using first inv switch_panel_inv [of v _ v1] by (auto simp: first_def split: if_splits)
    then have "registry_inv (reg (if showprogs v1 then v1\<lparr>progselected := cmd - NUMWINDOW 1\<rparr> else v1))"
      by simp
    from main_switch_inv [OF this ok] show ?thesis .
  qed
qed

lemma drawpanel_inv: "registry_inv r \<Longrightarrow> registry_inv (drawpanel r wmnames)"
proof -
  assume inv: "registry_inv r"
  have "live_between (panel (drawpanel r wmnames)) 0 (numpanels r) = live_between (panel r) 0 (numpanels r)"
    by (rule live_between_cong) (simp add: drawpanel_def)
  then have "live_count (drawpanel r wmnames) = live_count r"
    by (simp add: live_count_def drawpanel_def)
  with inv show ?thesis
    by (auto simp: registry_inv_def numactive_ok_def active_live_def drawpanel_def split: if_splits)
qed

lemma registry_init_inv: "registry_inv (registry_init u)"
  by (simp add: registry_inv_def numactive_ok_def live_count_def live_between_def registry_init_def)

lemma main_reachable_inv: "main_reachable q v \<Longrightarrow> registry_inv (reg v)"
proof (induction rule: main_reachable.induct)
  case (init v u)
  then show ?case by (simp add: registry_init_inv)
next
  case (map_request v p w wmname ld v')
  then show ?case by (simp add: main_MapRequest_inv)
next
  case (destroy_notify v p v')
  then show ?case using main_DestroyNotify_inv by blast
next
  case (map_notify v w v')
  then show ?case using main_MapNotify_inv by blast
next
  case (unmap_notify v w send_event v')
  then show ?case using main_UnmapNotify_inv by blast
next
  case (active_window v w)
  then show ?case
    by (auto simp: registry_inv_def numactive_ok_def live_count_def active_live_def split: if_splits)
next
  case (expose v wmnames)
  then show ?case by (simp add: drawpanel_inv)
next
  case (command v cmd v' cmd')
  then show ?case using main_command_inv by blast
qed

subsection \<open>Cycling through the panels\<close>

lemma MODULEINCREASE_up:
  assumes "0 \<le> ap" "0 < n"
  shows "MODULEINCREASE ap (int n) 1 = Inr (int ((nat ap + 1) mod n))"
proof -
  have "(ap + int n + 1) mod int n = (ap + 1 + int n) mod int n" by (simp add: add.commute add.left_commute)
  also have "\<dots> = (ap + 1) mod int n" by simp
  also have "\<dots> = int (nat ap + 1) mod int n" using assms by (simp add: add.commute)
  also have "\<dots> = int ((nat ap + 1) mod n)" by (simp only: zmod_int)
  finally show ?thesis using assms by (simp add: MODULEINCREASE_def c_rem_nonneg)
qed

lemma skip_withdrawn_unfold_up:
  assumes "0 \<le> activepanel r" "0 < numpanels r"
  shows "skip_withdrawn r 1 =
    (if withdrawn (panel r ((nat (activepanel r) + 1) mod numpanels r))
     then skip_withdrawn (r\<lparr>activepanel := int ((nat (activepanel r) + 1) mod numpanels r)\<rparr>) 1
     else Some (Inr (r\<lparr>activepanel := int ((nat (activepanel r) + 1) mod numpanels r)\<rparr>)))"
  by (subst skip_withdrawn.simps) (simp add: MODULEINCREASE_up [OF assms])

lemma skip_withdrawn_next:
  assumes "0 \<le> activepanel r" "0 < numpanels r"
    and "\<forall>t<d. withdrawn (panel r ((nat (activepanel r) + 1 + t) mod numpanels r))"
    and "\<not> withdrawn (panel r ((nat (activepanel r) + 1 + d) mod numpanels r))"
  shows "skip_withdrawn r 1 =
    Some (Inr (r\<lparr>activepanel := int ((nat (activepanel r) + 1 + d) mod numpanels r)\<rparr>))"
  using assms
proof (induction d arbitrary: r)
  case 0
  then show ?case
    by (simp add: skip_withdrawn_unfold_up [of r])
next
  case (Suc d)
  define p where "p = nat (activepanel r)"
  define n where "n = numpanels r"
  define r1 where "r1 = r\<lparr>activepanel := int ((p + 1) mod n)\<rparr>"
  from Suc.prems(3) [rule_format, of 0] have wd: "withdrawn (panel r ((p + 1) mod n))"
    by (simp add: p_def n_def)
  have shift: "(((p + 1) mod n) + 1 + t) mod n = (p + 1 + Suc t) mod n" for t
  proof -
    have "(((p + 1) mod n) + (1 + t)) mod n = ((p + 1) + (1 + t)) mod n"
      by (rule mod_add_left_eq)
    then show ?thesis by (simp add: add.assoc)
  qed
  have "skip_withdrawn r1 1 =
    Some (Inr (r1\<lparr>activepanel := int ((nat (activepanel r1) + 1 + d) mod numpanels r1)\<rparr>))"
  proof (rule Suc.IH)
    show "0 \<le> activepanel r1" by (simp add: r1_def)
    show "0 < numpanels r1" using Suc.prems by (simp add: r1_def)
    show "\<forall>t<d. withdrawn (panel r1 ((nat (activepanel r1) + 1 + t) mod numpanels r1))"
    proof (intro allI impI)
      fix t assume "t < d"
      then have "withdrawn (panel r ((p + 1 + Suc t) mod n))"
        using Suc.prems(3) [rule_format, of "Suc t"] by (simp add: p_def n_def)
      then show "withdrawn (panel r1 ((nat (activepanel r1) + 1 + t) mod numpanels r1))"
        using shift [of t] by (simp add: r1_def n_def)
    qed
    show "\<not> withdrawn (panel r1 ((nat (activepanel r1) + 1 + d) mod numpanels r1))"
      using Suc.prems(4) shift [of d] by (simp add: r1_def p_def n_def)
  qed
  then have "skip_withdrawn r1 1 = Some (Inr (r\<lparr>activepanel := int ((p + 1 + Suc d) mod n)\<rparr>))"
    using shift [of d] by (simp add: r1_def n_def)
  moreover have "skip_withdrawn r 1 = skip_withdrawn r1 1"
    using wd by (simp add: skip_withdrawn_unfold_up [OF Suc.prems(1,2)] r1_def p_def n_def)
  ultimately show ?case by (simp add: p_def n_def)
qed

lemma live_between_inj:
  assumes "p < n" "q < n" "\<not> withdrawn (a p)" "\<not> withdrawn (a q)"
    and "live_between a 0 p = live_between a 0 q"
  shows "p = q"
proof (rule ccontr)
  assume "p \<noteq> q"
  then consider "p < q" | "q < p" by linarith
  then show False
  proof cases
    case 1
    from live_between_less [of p q a] 1 assms show False by simp
  next
    case 2
    from live_between_less [of q p a] 2 assms show False by simp
  qed
qed

lemma live_between_next:
  assumes p: "p < n" "\<not> withdrawn (a p)"
    and before: "\<forall>t<d. withdrawn (a ((p + 1 + t) mod n))"
    and at: "\<not> withdrawn (a ((p + 1 + d) mod n))"
    and d: "d < n"
  shows "live_between a 0 ((p + 1 + d) mod n) = (live_between a 0 p + 1) mod live_between a 0 n"
proof (cases "p + 1 + d < n")
  case True
  define q where "q = p + 1 + d"
  from True have q: "(p + 1 + d) mod n = q" "p < q" "q < n" by (simp_all add: q_def)
  have "withdrawn (a m)" if "Suc p \<le> m" "m < q" for m
  proof -
    from that have "m - p - 1 < d" "p + 1 + (m - p - 1) = m" by (simp_all add: q_def)
    with before [rule_format, of "m - p - 1"] that q show ?thesis by simp
  qed
  then have "live_between a (Suc p) q = 0" by (rule live_between_zero)
  with p q have "live_between a 0 q = live_between a 0 p + 1"
    by (simp add: live_between_split [of 0 p q])
  moreover from at q have "live_between a 0 q < live_between a 0 n"
    by (intro live_between_less) simp_all
  ultimately show ?thesis unfolding q(1) by simp
next
  case False
  define q where "q = p + 1 + d - n"
  from False p d have q: "(p + 1 + d) mod n = q" "q \<le> p"
    by (simp_all add: q_def le_mod_geq)
  have "withdrawn (a m)" if "Suc p \<le> m" "m < n" for m
  proof -
    from that False have "m - p - 1 < d" "p + 1 + (m - p - 1) = m" by simp_all
    with before [rule_format, of "m - p - 1"] that show ?thesis by simp
  qed
  then have after: "live_between a (Suc p) n = 0" by (rule live_between_zero)
  have "withdrawn (a m)" if "m < q" for m
  proof -
    from that False p have "m + n - p - 1 < d" "p + 1 + (m + n - p - 1) = m + n"
      by (simp_all add: q_def)
    with before [rule_format, of "m + n - p - 1"] that q p show ?thesis by simp
  qed
  then have "live_between a 0 q = 0" by (intro live_between_zero) simp
  moreover from p after have "live_between a 0 n = live_between a 0 p + 1"
    by (simp add: live_between_split [of 0 p n])
  ultimately show ?thesis unfolding q(1) by simp
qed


lemma panelswitch_step:
  assumes "active_live r"
  shows "\<exists>r'. panelswitch r 1 = Some (Inr (0, r')) \<and> active_live r' \<and>
    panel r' = panel r \<and> numpanels r' = numpanels r \<and>
    live_between (panel r) 0 (nat (activepanel r')) =
      (live_between (panel r) 0 (nat (activepanel r)) + 1) mod live_count r"
proof -
  define p where "p = nat (activepanel r)"
  define n where "n = numpanels r"
  define a where "a = panel r"
  from assms have ap: "0 \<le> activepanel r" "activepanel r \<noteq> - 1" and p: "p < n" "\<not> withdrawn (a p)"
    by (simp_all add: active_live_def p_def n_def a_def nat_less_iff)
  define d where "d = (LEAST t. \<not> withdrawn (a ((p + 1 + t) mod n)))"
  from p have "(p + 1 + (n - 1)) mod n = p" by simp
  with p have ex: "\<not> withdrawn (a ((p + 1 + (n - 1)) mod n))" by simp
  from LeastI [of "\<lambda>t. \<not> withdrawn (a ((p + 1 + t) mod n))", OF ex]
  have at: "\<not> withdrawn (a ((p + 1 + d) mod n))" by (simp add: d_def)
  from Least_le [of "\<lambda>t. \<not> withdrawn (a ((p + 1 + t) mod n))", OF ex] p
  have d: "d < n" by (simp add: d_def)
  have before: "\<forall>t<d. withdrawn (a ((p + 1 + t) mod n))"
    using not_less_Least [of _ "\<lambda>t. \<not> withdrawn (a ((p + 1 + t) mod n))"] by (auto simp: d_def)
  define q where "q = (p + 1 + d) mod n"
  from p have q: "q < n" by (simp add: q_def)
  define r1 where "r1 = r\<lparr>activepanel := int q\<rparr>"
  have skip: "skip_withdrawn r 1 = Some (Inr r1)"
    unfolding r1_def q_def p_def n_def
    using ap p before at by (intro skip_withdrawn_next) (simp_all add: p_def n_def a_def)
  define r2 where "r2 = (if activecontent r1 = content (a q) then r1
    else r1\<lparr>activecontent := content (a q), activewindow := content (a q)\<rparr>)"
  have enter: "panelenter r1 = Inr r2"
    using q at by (simp add: panelenter_def r1_def r2_def Let_def n_def a_def q_def)
  have "panelswitch r 1 = Some (Inr (0, r2))"
    using ap skip enter by (simp add: panelswitch_def panelleave_def)
  moreover have r2: "panel r2 = panel r" "numpanels r2 = numpanels r" "activepanel r2 = int q"
    by (simp_all add: r2_def r1_def)
  moreover have "active_live r2"
    using q at by (simp add: active_live_def r2 n_def a_def q_def)
  moreover have "live_between (panel r) 0 (nat (activepanel r2)) =
      (live_between (panel r) 0 (nat (activepanel r)) + 1) mod live_count r"
    using live_between_next [OF p before at d]
    by (simp add: r2 q_def live_count_def a_def n_def p_def)
  ultimately show ?thesis by blast
qed

lemma switch_times_rank:
  assumes "active_live r"
  shows "\<exists>rm. switch_times m r = Some (Inr rm) \<and> active_live rm \<and>
    panel rm = panel r \<and> numpanels rm = numpanels r \<and>
    live_between (panel r) 0 (nat (activepanel rm)) =
      (live_between (panel r) 0 (nat (activepanel r)) + m) mod live_count r"
  using assms
proof (induction m arbitrary: r)
  case 0
  from 0 have "nat (activepanel r) < numpanels r" "\<not> withdrawn (panel r (nat (activepanel r)))"
    by (simp_all add: active_live_def nat_less_iff)
  then have "live_between (panel r) 0 (nat (activepanel r)) < live_count r"
    unfolding live_count_def by (rule live_between_less)
  with 0 show ?case by simp
next
  case (Suc m)
  from panelswitch_step [OF Suc.prems] obtain r' where
    step: "panelswitch r 1 = Some (Inr (0, r'))" and live: "active_live r'" and
    same: "panel r' = panel r" "numpanels r' = numpanels r" and
    rank: "live_between (panel r) 0 (nat (activepanel r')) =
      (live_between (panel r) 0 (nat (activepanel r)) + 1) mod live_count r"
    by blast
  from Suc.IH [OF live] obtain rm where
    rm: "switch_times m r' = Some (Inr rm)" "active_live rm" "panel rm = panel r'"
      "numpanels rm = numpanels r'" and
    rank': "live_between (panel r') 0 (nat (activepanel rm)) =
      (live_between (panel r') 0 (nat (activepanel r')) + m) mod live_count r'"
    by blast
  have k: "live_count r' = live_count r" by (simp add: live_count_def same)
  have "live_between (panel r) 0 (nat (activepanel rm)) =
      ((live_between (panel r) 0 (nat (activepanel r)) + 1) mod live_count r + m) mod live_count r"
    using rank' by (simp add: same k rank)
  also have "\<dots> = (live_between (panel r) 0 (nat (activepanel r)) + Suc m) mod live_count r"
    by (simp add: mod_add_left_eq)
  finally have "live_between (panel r) 0 (nat (activepanel rm)) =
      (live_between (panel r) 0 (nat (activepanel r)) + Suc m) mod live_count r" .
  with step rm same show ?case by simp
qed

lemma live_between_pos:
  assumes "0 < live_between a lo hi"
  shows "\<exists>m. lo \<le> m \<and> m < hi \<and> \<not> withdrawn (a m)"
proof (rule ccontr)
  assume "\<not> ?thesis"
  then have "live_between a lo hi = 0" by (intro live_between_zero) blast
  with assms show False by simp
qed

lemma panelswitch_from_any:
  assumes ap: "0 \<le> activepanel r" and k: "0 < live_count r"
  shows "\<exists>r'. panelswitch r 1 = Some (Inr (0, r')) \<and> active_live r' \<and> 0 < live_count r'"
proof -
  from live_between_pos [OF k [unfolded live_count_def]]
  have "\<exists>m<numpanels r. \<not> withdrawn (panel r m)" by blast
  from skip_withdrawn_terminates [OF _ ap this, of 1] obtain r1 where
    skip: "skip_withdrawn r 1 = Some (Inr r1)" and live: "active_live r1" by auto
  from live have range: "0 \<le> activepanel r1" "activepanel r1 < int (numpanels r1)"
    and nw: "\<not> withdrawn (panel r1 (nat (activepanel r1)))"
    by (simp_all add: active_live_def)
  from panelenter_restores [OF range] obtain r2 where
    enter: "panelenter r1 = Inr r2" and r2: "\<not> withdrawn (panel r2 (nat (activepanel r1)))"
      "activepanel r2 = activepanel r1" "numpanels r2 = numpanels r1" by blast
  from r2 range have live2: "active_live r2" by (simp add: active_live_def)
  from ap skip enter have "panelswitch r 1 = Some (Inr (0, r2))"
    by (simp add: panelswitch_def panelleave_def)
  with live2 active_live_count [OF live2] show ?thesis by blast
qed

lemma switch_times_from_any:
  assumes ap: "0 \<le> activepanel r" and k: "0 < live_count r" and m: "1 \<le> m"
  shows "\<exists>rm. switch_times m r = Some (Inr rm) \<and> active_live rm"
proof -
  from m obtain m' where m': "m = Suc m'" by (cases m) simp_all
  from panelswitch_from_any [OF ap k] obtain r1 where
    step: "panelswitch r 1 = Some (Inr (0, r1))" and live: "active_live r1" by blast
  from switch_times_rank [OF live, of m'] obtain rm where
    "switch_times m' r1 = Some (Inr rm)" "active_live rm" by blast
  with step show ?thesis by (simp add: m')
qed

lemma switch_times_cycle:
  assumes live: "active_live r"
  shows "\<exists>r'. switch_times (live_count r) r = Some (Inr r') \<and> activepanel r' = activepanel r"
proof -
  from switch_times_rank [OF live, of "live_count r"] obtain r' where
    r': "switch_times (live_count r) r = Some (Inr r')" "active_live r'" "panel r' = panel r"
      "numpanels r' = numpanels r" and
    rank: "live_between (panel r) 0 (nat (activepanel r')) =
      (live_between (panel r) 0 (nat (activepanel r)) + live_count r) mod live_count r"
    by blast
  from live have p: "nat (activepanel r) < numpanels r" "\<not> withdrawn (panel r (nat (activepanel r)))"
    "0 \<le> activepanel r"
    by (simp_all add: active_live_def nat_less_iff)
  from r' have q: "nat (activepanel r') < numpanels r" "\<not> withdrawn (panel r (nat (activepanel r')))"
    "0 \<le> activepanel r'"
    by (simp_all add: active_live_def nat_less_iff)
  from p have "live_between (panel r) 0 (nat (activepanel r)) < live_count r"
    unfolding live_count_def by (intro live_between_less)
  with rank have "live_between (panel r) 0 (nat (activepanel r')) =
      live_between (panel r) 0 (nat (activepanel r))" by simp
  from live_between_inj [OF q(1) p(1) q(2) p(2) this] p(3) q(3)
  have "activepanel r' = activepanel r" by simp
  with r' show ?thesis by blast
qed

lemma switch_times_elsewhere:
  assumes live: "active_live r" and m: "0 < m" "m < live_count r"
  shows "\<exists>rm. switch_times m r = Some (Inr rm) \<and> activepanel rm \<noteq> activepanel r"
proof -
  define p where "p = live_between (panel r) 0 (nat (activepanel r))"
  from switch_times_rank [OF live, of m] obtain rm where
    rm: "switch_times m r = Some (Inr rm)" and
    rank: "live_between (panel r) 0 (nat (activepanel rm)) = (p + m) mod live_count r"
    unfolding p_def by blast
  from live have "nat (activepanel r) < numpanels r" "\<not> withdrawn (panel r (nat (activepanel r)))"
    by (simp_all add: active_live_def nat_less_iff)
  then have less: "p < live_count r"
    unfolding live_count_def p_def by (intro live_between_less)
  have "(p + m) mod live_count r \<noteq> p"
  proof (cases "p + m < live_count r")
    case True
    with m show ?thesis by simp
  next
    case False
    with less m have "(p + m) mod live_count r = p + m - live_count r"
      by (simp add: le_mod_geq)
    with m False show ?thesis by linarith
  qed
  with rank have "activepanel rm \<noteq> activepanel r" unfolding p_def by auto
  with rm show ?thesis by blast
qed

text \<open>
  C1. In every state of the main loop with at least one panel and \<open>k\<close> panels that are
  not withdrawn, \<open>panelswitch\<close> with direction \<open>+1\<close> applied \<open>k\<close> times returns each
  time, and the active index is then the one it started from; after each of the \<open>k\<close>
  applications the active index refers to a registered panel that is not withdrawn,
  and after at least one and fewer than \<open>k\<close> of them it is not the index it started
  from. Outside the states of the main loop too, from every registry with an active
  index that is not negative and with a panel that is not withdrawn, each application
  returns and leaves the active index at a registered panel that is not withdrawn.
\<close>

theorem panelswitch_cycle:
  "(main_reachable q v \<and> 0 < numpanels (reg v) \<longrightarrow>
      (\<exists>r'. switch_times (live_count (reg v)) (reg v) = Some (Inr r') \<and>
         activepanel r' = activepanel (reg v)) \<and>
      (\<forall>m. 1 \<le> m \<and> m \<le> live_count (reg v) \<longrightarrow>
         (\<exists>rm. switch_times m (reg v) = Some (Inr rm) \<and> active_live rm)) \<and>
      (\<forall>m. 1 \<le> m \<and> m < live_count (reg v) \<longrightarrow>
         (\<exists>rm. switch_times m (reg v) = Some (Inr rm) \<and> activepanel rm \<noteq> activepanel (reg v)))) \<and>
   (0 \<le> activepanel r \<and> 0 < live_count r \<longrightarrow>
      (\<forall>m. 1 \<le> m \<longrightarrow> (\<exists>rm. switch_times m r = Some (Inr rm) \<and> active_live rm)))"
proof (intro conjI impI allI)
  assume "main_reachable q v \<and> 0 < numpanels (reg v)"
  then have inv: "registry_inv (reg v)" using main_reachable_inv by blast
  show "\<exists>r'. switch_times (live_count (reg v)) (reg v) = Some (Inr r') \<and>
         activepanel r' = activepanel (reg v)"
  proof (cases "live_count (reg v) = 0")
    case True
    then show ?thesis by simp
  next
    case False
    with inv have "active_live (reg v)" by (auto simp: registry_inv_def numactive_ok_def)
    then show ?thesis by (rule switch_times_cycle)
  qed
next
  fix m
  assume "main_reachable q v \<and> 0 < numpanels (reg v)"
  then have inv: "registry_inv (reg v)" using main_reachable_inv by blast
  assume m: "1 \<le> m \<and> m \<le> live_count (reg v)"
  with inv have "active_live (reg v)" by (auto simp: registry_inv_def numactive_ok_def)
  from switch_times_rank [OF this, of m]
  show "\<exists>rm. switch_times m (reg v) = Some (Inr rm) \<and> active_live rm" by blast
next
  fix m
  assume "main_reachable q v \<and> 0 < numpanels (reg v)"
  then have inv: "registry_inv (reg v)" using main_reachable_inv by blast
  assume m: "1 \<le> m \<and> m < live_count (reg v)"
  with inv have "active_live (reg v)" by (auto simp: registry_inv_def numactive_ok_def)
  from switch_times_elsewhere [OF this, of m] m
  show "\<exists>rm. switch_times m (reg v) = Some (Inr rm) \<and> activepanel rm \<noteq> activepanel (reg v)"
    by simp
next
  fix m :: nat
  assume "0 \<le> activepanel r \<and> 0 < live_count r" "1 \<le> m"
  then show "\<exists>rm. switch_times m r = Some (Inr rm) \<and> active_live rm"
    by (simp add: switch_times_from_any)
qed

text \<open>
  Two windows mapped one after the other (the second one is the active panel, and one
  switch leads to the first), and a registry whose active panel is withdrawn.
\<close>

lemma upt4: "[0..<4] = [0, 1, 2, 3]"
  by (simp add: upt_rec)

lemma no_window_start: "main_reachable False no_window"
  by (rule main_reachable.init [where u = False])
     (simp_all add: no_window_def panel_list_shown_def)

lemma one_mapped_event: "main_MapRequest no_window 110 10 (Some ''w'') 0 = Inr one_mapped"
  by (simp add: main_MapRequest_def paneladd_def panelfind_def panelfind_from.simps [of 0]
      no_window_def one_mapped_def registry_init_def MAXPANELS_def switch_to_def panelleave_def
      panelenter_def Let_def panelname_def mkpanel_def)

lemma two_mapped_event: "main_MapRequest one_mapped 111 11 (Some ''w'') 0 = Inr two_mapped"
  by (simp add: main_MapRequest_def paneladd_def panelfind_def panelfind_from.simps [of 0]
      panelfind_from.simps [of "Suc 0"] PANEL_def CONTENT_def
      no_window_def one_mapped_def two_mapped_def registry_init_def MAXPANELS_def switch_to_def
      panelleave_def panelenter_def Let_def panelname_def mkpanel_def fun_upd_twist)

lemma two_mapped_reachable: "main_reachable False two_mapped"
  by (rule main_reachable.map_request [OF main_reachable.map_request
        [OF no_window_start one_mapped_event] two_mapped_event])

lemma two_mapped_switch:
  "switch_times 1 (reg two_mapped) =
     Some (Inr ((reg two_mapped)\<lparr>activepanel := 0, activecontent := 10, activewindow := 10\<rparr>))"
  "switch_times 2 (reg two_mapped) = Some (Inr (reg two_mapped))"
  by (simp_all add: numeral_2_eq_2 panelswitch_def panelleave_def skip_withdrawn.simps
      MODULEINCREASE_def c_rem_def panelenter_def Let_def two_mapped_def no_window_def
      registry_init_def mkpanel_def)

lemma second_withdrawn_switch:
  "switch_times 1 second_withdrawn = Some (Inr (second_withdrawn\<lparr>activepanel := 0\<rparr>))"
  by (simp add: panelswitch_def panelleave_def skip_withdrawn.simps
      MODULEINCREASE_def c_rem_def panelenter_def Let_def second_withdrawn_def mkpanel_def)

theorem panelswitch_cycle_witness:
  "main_reachable False two_mapped \<and> 0 < numpanels (reg two_mapped) \<and>
   live_count (reg two_mapped) = 2 \<and> activepanel (reg two_mapped) = 1 \<and>
   (\<exists>r'. switch_times 2 (reg two_mapped) = Some (Inr r') \<and> activepanel r' = 1) \<and>
   (\<exists>rm. switch_times 1 (reg two_mapped) = Some (Inr rm) \<and> active_live rm \<and>
      activepanel rm = 0 \<and> activepanel rm \<noteq> activepanel (reg two_mapped)) \<and>
   activepanel second_withdrawn = 1 \<and> withdrawn (panel second_withdrawn 1) \<and>
   live_count second_withdrawn = 1 \<and>
   (\<exists>rm. switch_times 1 second_withdrawn = Some (Inr rm) \<and> active_live rm \<and>
      activepanel rm = 0)"
proof -
  have k: "live_count (reg two_mapped) = 2" "activepanel (reg two_mapped) = 1"
    "0 < numpanels (reg two_mapped)"
    by (simp_all add: live_count_def live_between_def two_mapped_def no_window_def mkpanel_def upt2)
  have k': "live_count second_withdrawn = 1" "activepanel second_withdrawn = 1"
    "withdrawn (panel second_withdrawn 1)"
    by (simp_all add: live_count_def live_between_def second_withdrawn_def mkpanel_def upt2)
  note cycle = panelswitch_cycle [of False two_mapped second_withdrawn, unfolded k k']
  from cycle two_mapped_reachable k(3)
  have a: "\<exists>r'. switch_times 2 (reg two_mapped) = Some (Inr r') \<and> activepanel r' = 1"
    and b: "\<forall>m. 1 \<le> m \<and> m \<le> 2 \<longrightarrow> (\<exists>rm. switch_times m (reg two_mapped) = Some (Inr rm) \<and> active_live rm)"
    and c: "\<forall>m. 1 \<le> m \<and> m < 2 \<longrightarrow> (\<exists>rm. switch_times m (reg two_mapped) = Some (Inr rm) \<and> activepanel rm \<noteq> 1)"
    by blast+
  from cycle have d: "\<forall>m. 1 \<le> m \<longrightarrow> (\<exists>rm. switch_times m second_withdrawn = Some (Inr rm) \<and> active_live rm)"
    by simp
  from b [rule_format, of 1] c [rule_format, of 1] two_mapped_switch(1)
  have "\<exists>rm. switch_times 1 (reg two_mapped) = Some (Inr rm) \<and> active_live rm \<and>
      activepanel rm = 0 \<and> activepanel rm \<noteq> activepanel (reg two_mapped)"
    by (auto simp: k)
  moreover from d [rule_format, of 1] second_withdrawn_switch
  have "\<exists>rm. switch_times 1 second_withdrawn = Some (Inr rm) \<and> active_live rm \<and> activepanel rm = 0"
    by auto
  ultimately show ?thesis using a k k' two_mapped_reachable by simp
qed

subsection \<open>Commands with a number\<close>


lemma toggle_command_NUMWINDOW: "1 \<le> i \<Longrightarrow> toggle_command v (NUMWINDOW i) = NUMWINDOW i"
  by (simp add: toggle_command_def command_defs)

lemma toggle_command_OKWINDOW: "toggle_command v OKWINDOW = OKWINDOW"
  by (simp add: toggle_command_def command_defs)

lemma execute_command_unfold:
  "cmd \<noteq> NOCOMMAND \<Longrightarrow>
   execute_command v cmd =
     (case main_command v cmd of
        None \<Rightarrow> None
      | Some (Inl e) \<Rightarrow> Some (Inl e)
      | Some (Inr (v', cmd')) \<Rightarrow> execute_command v' cmd')"
  by (subst execute_command.simps) simp

lemma execute_command_NOCOMMAND: "execute_command v NOCOMMAND = Some (Inr v)"
  by (subst execute_command.simps) simp

lemma command_distinct: "OKWINDOW \<noteq> NOCOMMAND" "1 \<le> i \<Longrightarrow> NUMWINDOW i \<noteq> NOCOMMAND"
  by (simp_all add: command_defs)

lemma main_command_OKWINDOW: "main_command v OKWINDOW = main_switch v OKWINDOW"
  by (simp add: main_command_def toggle_command_def command_defs)

lemma main_switch_OKWINDOW: "main_switch v OKWINDOW = Some (hide_or_ok v OKWINDOW)"
  by (simp add: main_switch_def command_defs)

lemma main_command_NUMWINDOW:
  assumes "1 \<le> i"
  shows "main_command v (NUMWINDOW i) =
    (if showpanel v \<and> activepanel (reg v) = - 1 then Some (Inr (v, NUMWINDOW i))
     else
       (case (if showpanel v
              then switch_panel v (i - 1 - panels_before (reg v))
              else Some (Inr v)) of
          None \<Rightarrow> None
        | Some (Inl e) \<Rightarrow> Some (Inl e)
        | Some (Inr v1) \<Rightarrow>
            main_switch (if showprogs v1 then v1\<lparr>progselected := i - 1\<rparr> else v1) OKWINDOW))"
proof -
  have le: "NUMWINDOW 1 \<le> NUMWINDOW i" and diff: "NUMWINDOW i - NUMWINDOW 1 = i - 1"
    using assms by (simp_all add: NUMWINDOW_def)
  show ?thesis
    unfolding main_command_def Let_def toggle_command_NUMWINDOW [OF assms] diff
    using le by (simp only: if_True)
qed

lemma panels_before_all_live:
  assumes "\<forall>m<numpanels r. \<not> withdrawn (panel r m)" "0 \<le> activepanel r"
    "activepanel r < int (numpanels r)"
  shows "panels_before r = activepanel r"
proof -
  have "filter (\<lambda>i. \<not> withdrawn (panel r i)) [0..<nat (activepanel r)] = [0..<nat (activepanel r)]"
    using assms by (intro filter_True) (auto simp: nat_less_iff)
  with assms show ?thesis by (simp add: panels_before_def)
qed

lemma panelswitch_to_entry:
  assumes live: "\<forall>m<numpanels r. \<not> withdrawn (panel r m)"
    and ap: "0 \<le> activepanel r" "activepanel r < int (numpanels r)"
    and i: "1 \<le> i"
  shows "panelswitch r (i - 1 - activepanel r) =
    map_option (map_sum id (Pair 0))
      (Some (panelenter (r\<lparr>activepanel := (i - 1) mod int (numpanels r)\<rparr>)))"
proof -
  define n where "n = int (numpanels r)"
  define a where "a = (i - 1) mod n"
  from ap have n: "0 < n" by (simp add: n_def)
  then have a: "0 \<le> a" "a < n" by (simp_all add: a_def)
  have "(activepanel r + n + (i - 1 - activepanel r)) = (i - 1) + n" by simp
  then have "c_rem (activepanel r + n + (i - 1 - activepanel r)) n = a"
    using n i by (simp add: c_rem_nonneg a_def)
  then have step: "MODULEINCREASE (activepanel r) (int (numpanels r)) (i - 1 - activepanel r) = Inr a"
    using n by (simp add: MODULEINCREASE_def n_def)
  from a have "nat a < numpanels r" by (simp add: n_def nat_less_iff)
  with live have "\<not> withdrawn (panel r (nat a))" by simp
  with step a have "skip_withdrawn r (i - 1 - activepanel r) = Some (Inr (r\<lparr>activepanel := a\<rparr>))"
    by (subst skip_withdrawn.simps) simp
  with ap show ?thesis
    by (simp add: panelswitch_def panelleave_def a_def n_def split: sum.splits)
qed

text \<open>
  C3. The list of \<open>group_registry\<close> has three entries, for the panels of the slots 0, 2
  and 3 (the panel of slot 1 is withdrawn), and the first one is the active panel.
  \<open>NUMWINDOW(3)\<close> is for the third entry, the panel of slot 3; the loop of the commands
  enters the panel of slot 2, the second entry, and closes the list.
\<close>

theorem NUMWINDOW_past_withdrawn_panel:
  "drawpanel_elements group_registry = [0, 2, 3] \<and>
   drawpanel_elements group_registry ! 2 = 3 \<and>
   execute_command (panel_list_shown\<lparr>reg := group_registry\<rparr>) (NUMWINDOW 3) =
     Some (Inr (panel_list_shown
       \<lparr>reg := group_registry\<lparr>activepanel := 2, activecontent := 12, activewindow := 12\<rparr>,
        showpanel := False\<rparr>))"
proof -
  have "drawpanel_elements group_registry = [0, 2, 3]"
    by (simp add: drawpanel_elements_def group_registry_def mkpanel_def upt4)
  moreover have "execute_command (panel_list_shown\<lparr>reg := group_registry\<rparr>) (NUMWINDOW 3) =
     Some (Inr (panel_list_shown
       \<lparr>reg := group_registry\<lparr>activepanel := 2, activecontent := 12, activewindow := 12\<rparr>,
        showpanel := False\<rparr>))"
    by (simp add: execute_command.simps main_command_def toggle_command_def main_switch_def
      hide_or_ok_def command_defs panel_list_shown_def group_registry_def Let_def
      switch_panel_def panelswitch_def panelleave_def panelenter_def skip_withdrawn.simps
      MODULEINCREASE_def c_rem_def mkpanel_def panels_before_def)
  ultimately show ?thesis by simp
qed

text \<open>
  Where no registered panel is withdrawn, \<open>NUMWINDOW(i)\<close> with \<open>i \<ge> 1\<close> in the panel list
  enters the panel with index \<open>(i - 1) mod n\<close>, which is \<open>i - 1\<close> for \<open>i \<le> n\<close>, and then
  does what \<open>OKWINDOW\<close> does there: the list is closed. In the program list it sets
  \<open>progselected\<close> to \<open>i - 1\<close> and then does what \<open>OKWINDOW\<close> does there.
\<close>

lemma NUMWINDOW_all_live:
  "(showpanel v \<and> \<not> showprogs v \<and> (\<forall>m<numpanels (reg v). \<not> withdrawn (panel (reg v) m)) \<and>
    0 \<le> activepanel (reg v) \<and> activepanel (reg v) < int (numpanels (reg v)) \<and> 1 \<le> i \<longrightarrow>
      (\<exists>r'. panelenter ((reg v)\<lparr>activepanel := (i - 1) mod int (numpanels (reg v))\<rparr>) = Inr r' \<and>
         activepanel r' = (i - 1) mod int (numpanels (reg v)) \<and>
         execute_command v (NUMWINDOW i) = execute_command (v\<lparr>reg := r'\<rparr>) OKWINDOW \<and>
         execute_command (v\<lparr>reg := r'\<rparr>) OKWINDOW = Some (Inr (v\<lparr>reg := r', showpanel := False\<rparr>)))) \<and>
   (showprogs v \<and> \<not> showpanel v \<and> 1 \<le> i \<longrightarrow>
      execute_command v (NUMWINDOW i) = execute_command (v\<lparr>progselected := i - 1\<rparr>) OKWINDOW)"
proof (intro conjI impI)
  assume h: "showpanel v \<and> \<not> showprogs v \<and> (\<forall>m<numpanels (reg v). \<not> withdrawn (panel (reg v) m)) \<and>
    0 \<le> activepanel (reg v) \<and> activepanel (reg v) < int (numpanels (reg v)) \<and> 1 \<le> i"
  define r where "r = reg v"
  define a where "a = (i - 1) mod int (numpanels r)"
  from h have n: "0 < int (numpanels r)" by (simp add: r_def)
  then have a: "0 \<le> a" "a < int (numpanels r)" by (simp_all add: a_def)
  then have "nat a < numpanels r" by (simp add: nat_less_iff)
  with h have live: "\<not> withdrawn (panel r (nat a))" by (simp add: r_def)
  define r' where "r' = (if activecontent r = content (panel r (nat a)) then r\<lparr>activepanel := a\<rparr>
    else r\<lparr>activepanel := a, activecontent := content (panel r (nat a)),
          activewindow := content (panel r (nat a))\<rparr>)"
  have enter: "panelenter (r\<lparr>activepanel := a\<rparr>) = Inr r'"
    using a live by (auto simp: panelenter_def Let_def r'_def)
  have r'a: "activepanel r' = a" by (simp add: r'_def)
  from h have before: "panels_before r = activepanel r"
    by (intro panels_before_all_live) (simp_all add: r_def)
  from h have "panelswitch r (i - 1 - activepanel r) = Some (Inr (0, r'))"
    using panelswitch_to_entry [of r i] enter by (simp add: r_def a_def)
  then have switch: "switch_panel v (i - 1 - panels_before (reg v)) = Some (Inr (v\<lparr>reg := r'\<rparr>))"
    using before by (simp add: switch_panel_def r_def)
  have ok: "execute_command (v\<lparr>reg := r'\<rparr>) OKWINDOW = Some (Inr (v\<lparr>reg := r', showpanel := False\<rparr>))"
    using h
    by (simp add: execute_command_unfold command_distinct main_command_OKWINDOW
        main_switch_OKWINDOW hide_or_ok_def execute_command_NOCOMMAND)
  have "main_command v (NUMWINDOW i) = main_switch (v\<lparr>reg := r'\<rparr>) OKWINDOW"
    using h switch by (simp add: main_command_NUMWINDOW)
  then have "execute_command v (NUMWINDOW i) = execute_command (v\<lparr>reg := r'\<rparr>) OKWINDOW"
    using h by (simp add: execute_command_unfold command_distinct main_command_OKWINDOW)
  with enter r'a ok
  show "\<exists>r'. panelenter ((reg v)\<lparr>activepanel := (i - 1) mod int (numpanels (reg v))\<rparr>) = Inr r' \<and>
         activepanel r' = (i - 1) mod int (numpanels (reg v)) \<and>
         execute_command v (NUMWINDOW i) = execute_command (v\<lparr>reg := r'\<rparr>) OKWINDOW \<and>
         execute_command (v\<lparr>reg := r'\<rparr>) OKWINDOW = Some (Inr (v\<lparr>reg := r', showpanel := False\<rparr>))"
    unfolding r_def [symmetric] a_def [symmetric] by blast
next
  assume h: "showprogs v \<and> \<not> showpanel v \<and> 1 \<le> i"
  then have "main_command v (NUMWINDOW i) = main_switch (v\<lparr>progselected := i - 1\<rparr>) OKWINDOW"
    by (simp add: main_command_NUMWINDOW)
  then show "execute_command v (NUMWINDOW i) = execute_command (v\<lparr>progselected := i - 1\<rparr>) OKWINDOW"
    using h by (simp add: execute_command_unfold command_distinct main_command_OKWINDOW)
qed

text \<open>
  The code has no test of \<open>i\<close> against the number of entries. With two panels in the
  panel list and the first one active, \<open>NUMWINDOW(4)\<close> enters the second panel and
  closes the list. With the two programs \<open>xterm\<close> and \<open>quit\<close> in the program list,
  \<open>NUMWINDOW(4)\<close> reads the title of a slot that has none. In the list \<open>yes\<close>, \<open>no\<close> of
  the confirmation \<open>NUMWINDOW(2)\<close> leaves the cursor on \<open>yes\<close> and confirms: the main
  loop ends. With the panel list shown and no active panel the loop of the commands
  does not end.
\<close>

lemma NUMWINDOW_beyond_list:
  "showpanel panel_list_shown \<and> numpanels (reg panel_list_shown) = 2 \<and>
   activepanel (reg panel_list_shown) = 0 \<and>
   execute_command panel_list_shown (NUMWINDOW 4) =
     Some (Inr (panel_list_shown
       \<lparr>reg := two_panels\<lparr>activepanel := 1, activecontent := 11, activewindow := 11\<rparr>,
        showpanel := False\<rparr>)) \<and>
   execute_command panel_list_shown (NUMWINDOW 4) \<noteq> Some (Inr panel_list_shown)"
proof -
  have run: "execute_command panel_list_shown (NUMWINDOW 4) =
     Some (Inr (panel_list_shown
       \<lparr>reg := two_panels\<lparr>activepanel := 1, activecontent := 11, activewindow := 11\<rparr>,
        showpanel := False\<rparr>))"
    by (simp add: execute_command.simps main_command_def toggle_command_def main_switch_def
        hide_or_ok_def command_defs panel_list_shown_def two_panels_def Let_def
        switch_panel_def panelswitch_def panelleave_def panelenter_def skip_withdrawn.simps
        MODULEINCREASE_def c_rem_def mkpanel_def panels_before_def)
  moreover have "panel_list_shown
       \<lparr>reg := two_panels\<lparr>activepanel := 1, activecontent := 11, activewindow := 11\<rparr>,
        showpanel := False\<rparr> \<noteq> panel_list_shown"
    by (simp add: panel_list_shown_def)
  moreover have "showpanel panel_list_shown" "numpanels (reg panel_list_shown) = 2"
    "activepanel (reg panel_list_shown) = 0"
    by (simp_all add: panel_list_shown_def two_panels_def)
  ultimately show ?thesis by simp
qed

lemma NUMWINDOW_program_beyond_list:
  "execute_command (panel_list_shown\<lparr>showpanel := False, showprogs := True\<rparr>) (NUMWINDOW 4) =
     Some (Inl NullString)"
  by (simp add: execute_command.simps main_command_def toggle_command_def main_switch_def
      hide_or_ok_def command_defs panel_list_shown_def Let_def MAXPROGRAMS_def)

lemma NUMWINDOW_confirm_quits:
  "execute_command (panel_list_shown\<lparr>showpanel := False, showconfirm := True\<rparr>) (NUMWINDOW 2) =
     Some (Inr (panel_list_shown\<lparr>showpanel := False, showconfirm := False, run := False\<rparr>))"
  by (simp add: execute_command.simps main_command_def toggle_command_def main_switch_def
      hide_or_ok_def command_defs panel_list_shown_def Let_def)

lemma NUMWINDOW_no_panel_not_done:
  assumes "execute_command v cmd = Some y"
  shows "\<not> (showpanel v \<and> activepanel (reg v) = - 1 \<and> NUMWINDOW 1 \<le> cmd)"
proof (rule execute_command.raw_induct
    [where P = "\<lambda>v cmd y. \<not> (showpanel v \<and> activepanel (reg v) = - 1 \<and> NUMWINDOW 1 \<le> cmd)",
     OF _ assms])
  fix loop :: "mainvars \<Rightarrow> int \<Rightarrow> (crash + mainvars) option"
  fix v cmd y
  assume IH: "\<And>v' cmd' y'. loop v' cmd' = Some y' \<Longrightarrow>
    \<not> (showpanel v' \<and> activepanel (reg v') = - 1 \<and> NUMWINDOW 1 \<le> cmd')"
  assume body: "(if cmd = NOCOMMAND then Some (Inr v)
      else
        (case main_command v cmd of
           None \<Rightarrow> None
         | Some (Inl e) \<Rightarrow> Some (Inl e)
         | Some (Inr (v', cmd')) \<Rightarrow> loop v' cmd')) = Some y"
  show "\<not> (showpanel v \<and> activepanel (reg v) = - 1 \<and> NUMWINDOW 1 \<le> cmd)"
  proof
    assume stuck: "showpanel v \<and> activepanel (reg v) = - 1 \<and> NUMWINDOW 1 \<le> cmd"
    then have i: "1 \<le> cmd - 100" "cmd = NUMWINDOW (cmd - 100)" "cmd \<noteq> NOCOMMAND"
      by (simp_all add: command_defs)
    from stuck have "main_command v (NUMWINDOW (cmd - 100)) = Some (Inr (v, NUMWINDOW (cmd - 100)))"
      by (simp add: main_command_NUMWINDOW [OF i(1)])
    with i body have "loop v cmd = Some y" by simp
    from IH [OF this] stuck show False by simp
  qed
qed

lemma NUMWINDOW_no_panel_diverges:
  "showpanel v \<Longrightarrow> activepanel (reg v) = - 1 \<Longrightarrow> 1 \<le> i \<Longrightarrow>
   execute_command v (NUMWINDOW i) = None"
  using NUMWINDOW_no_panel_not_done [of v "NUMWINDOW i"]
  by (cases "execute_command v (NUMWINDOW i)") (auto simp: NUMWINDOW_def)

end
